theory Spec2Isabelle
  imports Main "HOL-Library.Multiset" "HOL-Library.Signed_Division"
begin

section \<open>The sampler of reckon (sample.go), embedded in HOL\<close>

text \<open>
  The package samples random keys of a redis instance over one connection, asks each key's
  type, fetches a few facts about the value with a type-specific sampler and records them
  in one \<open>Results\<close> accumulator per aggregation group. This theory translates
  \<^verbatim>\<open>sample.go\<close> function by function. Go's \<open>int\<close> is taken to be 64 bits wide; no
  arithmetic of the package can overflow (a division by 100, and a counter that stays
  below \<open>NumKeys\<close>), so integers are modelled by \<open>int\<close>, with Go's truncating division
  written \<open>sdiv\<close>.
\<close>

subsection \<open>Options, value types, aggregators\<close>

record Options =
  Host :: string
  Port :: int
  NumKeys :: int

text \<open>\<open>type ValueType string\<close>: the string that redis' TYPE command returns.\<close>

type_synonym ValueType = string

definition TypeString :: ValueType where "TypeString = ''string''"
definition TypeSortedSet :: ValueType where "TypeSortedSet = ''zset''"
definition TypeSet :: ValueType where "TypeSet = ''set''"
definition TypeHash :: ValueType where "TypeHash = ''hash''"
definition TypeList :: ValueType where "TypeList = ''list''"
definition TypeUnknown :: ValueType where "TypeUnknown = ''unknown''"

text \<open>An \<open>Aggregator\<close> is its \<open>Groups\<close> method; \<open>AggregatorFunc\<close> is the identity adapter.\<close>

type_synonym Aggregator = "string \<Rightarrow> ValueType \<Rightarrow> string list"

definition AggregatorFunc :: "(string \<Rightarrow> ValueType \<Rightarrow> string list) \<Rightarrow> Aggregator" where
  "AggregatorFunc f = (\<lambda>key valueType. f key valueType)"

text \<open>
  Modelled from the spec: \<open>AnyKey\<close>, the built-in aggregator, is not in the sources at hand.
  The spec says it returns a single constant bucket name for every key; the name itself is
  not given and is a parameter here.
\<close>

definition AnyKey :: "string \<Rightarrow> string \<Rightarrow> ValueType \<Rightarrow> string list" where
  "AnyKey bucket key valueType = [bucket]"

subsection \<open>The redis connection (redigo), as far as the sampler uses it\<close>

text \<open>
  The client library is an external collaborator. Its values are the dynamic types that
  a reply can have (\<open>nil\<close>, \<open>int64\<close>, \<open>[]byte\<close>, a status \<open>string\<close>, \<open>redis.Error\<close>,
  \<open>[]interface{}\<close>). A connection is modelled by what the peer will deliver to the
  successive reads, one item per command: a reply, or a transport error. \<open>Send\<close> queues a
  command; \<open>Do\<close> writes its command, if any, and reads the reply of every queued command
  and of its own. An empty script reads as a closed connection. Every call is appended to
  a trace, so that theorems can speak about the commands a run issued.
\<close>

datatype arg = AStr string | AInt int

datatype command = Cmd string "arg list"

datatype reply = RNil | RInt int | RBulk string | RStatus string | RError string
  | RArray "reply list"

datatype error = ErrNil | ErrServer string | ErrIO string | ErrUnexpectedType string
  | ErrParseInt string | ErrUnknownType string

datatype event = Sent command | Did command reply "error option"

record conn =
  script :: "(error + reply) list"
  pending :: nat
  trace :: "event list"

fun cmdName :: "command \<Rightarrow> string" where
  "cmdName (Cmd name args) = name"

fun readReplies :: "nat \<Rightarrow> (error + reply) list \<Rightarrow> (error + reply list) \<times> (error + reply) list" where
  "readReplies 0 s = (Inr [], s)"
| "readReplies (Suc n) [] = (Inl (ErrIO ''EOF''), [])"
| "readReplies (Suc n) (Inl e # s) = (Inl e, s)"
| "readReplies (Suc n) (Inr r # s) =
     (case readReplies n s of
        (Inl e, s') \<Rightarrow> (Inl e, s')
      | (Inr rs, s') \<Rightarrow> (Inr (r # rs), s'))"

fun firstError :: "reply list \<Rightarrow> error option" where
  "firstError [] = None"
| "firstError (RError s # rs) = Some (ErrServer s)"
| "firstError (r # rs) = firstError rs"

definition Send :: "command \<Rightarrow> conn \<Rightarrow> conn" where
  "Send c cn = cn\<lparr>pending := pending cn + 1, trace := trace cn @ [Sent c]\<rparr>"

text \<open>
  \<open>conn.Do(cmd, args...)\<close>. With the empty command it only flushes, and returns the
  pending replies as one array with a nil error (an error reply is then an element of the
  array). With a command it returns the last reply read, and as error the first error
  reply.
\<close>

definition Do :: "command \<Rightarrow> conn \<Rightarrow> (reply \<times> error option) \<times> conn" where
  "Do c cn =
     (let flushOnly = (cmdName c = []);
          n = (if flushOnly then pending cn else pending cn + 1)
      in if n = 0 then ((RNil, None), cn\<lparr>trace := trace cn @ [Did c RNil None]\<rparr>)
         else
           (case readReplies n (script cn) of
              (Inl e, rest) \<Rightarrow>
                ((RNil, Some e),
                 cn\<lparr>script := rest, pending := 0, trace := trace cn @ [Did c RNil (Some e)]\<rparr>)
            | (Inr rs, rest) \<Rightarrow>
                (let res = (if flushOnly then (RArray rs, None) else (last rs, firstError rs))
                 in (res, cn\<lparr>script := rest, pending := 0,
                            trace := trace cn @ [Did c (fst res) (snd res)]\<rparr>))))"

subsubsection \<open>The reply helpers \<open>redis.String\<close>, \<open>redis.Int\<close>, \<open>redis.Strings\<close>, \<open>redis.Values\<close>\<close>

text \<open>
  Each takes the pair that \<open>Do\<close> returns, passes a non-nil error through, and converts
  the reply by its dynamic type otherwise.
\<close>

fun redis_String :: "reply \<times> error option \<Rightarrow> string \<times> error option" where
  "redis_String (r, Some e) = ([], Some e)"
| "redis_String (RBulk s, None) = (s, None)"
| "redis_String (RStatus s, None) = (s, None)"
| "redis_String (RNil, None) = ([], Some ErrNil)"
| "redis_String (RError s, None) = ([], Some (ErrServer s))"
| "redis_String (r, None) = ([], Some (ErrUnexpectedType ''String''))"

definition digitVal :: "char \<Rightarrow> nat option" where
  "digitVal c =
     (let n = (of_char c :: nat) in if 48 \<le> n \<and> n \<le> 57 then Some (n - 48) else None)"

fun parseDigits :: "string \<Rightarrow> nat \<Rightarrow> nat option" where
  "parseDigits [] acc = Some acc"
| "parseDigits (c # cs) acc =
     (case digitVal c of None \<Rightarrow> None | Some d \<Rightarrow> parseDigits cs (acc * 10 + d))"

text \<open>\<open>strconv.ParseInt(s, 10, 0)\<close>: an optional sign, at least one decimal digit, 64 bits.\<close>

definition ParseInt :: "string \<Rightarrow> int option" where
  "ParseInt s =
     (case s of
        [] \<Rightarrow> None
      | c # cs \<Rightarrow>
          (let neg = (c = CHR ''-'');
               ds = (if c = CHR ''-'' \<or> c = CHR ''+'' then cs else s)
           in if ds = [] then None
              else (case parseDigits ds 0 of
                      None \<Rightarrow> None
                    | Some n \<Rightarrow>
                        (let v = (if neg then - int n else int n)
                         in if - (2 ^ 63) \<le> v \<and> v < 2 ^ 63 then Some v else None))))"

fun redis_Int :: "reply \<times> error option \<Rightarrow> int \<times> error option" where
  "redis_Int (r, Some e) = (0, Some e)"
| "redis_Int (RInt x, None) = (x, None)"
| "redis_Int (RBulk s, None) =
     (case ParseInt s of Some x \<Rightarrow> (x, None) | None \<Rightarrow> (0, Some (ErrParseInt s)))"
| "redis_Int (RNil, None) = (0, Some ErrNil)"
| "redis_Int (RError s, None) = (0, Some (ErrServer s))"
| "redis_Int (r, None) = (0, Some (ErrUnexpectedType ''Int''))"

fun stringsElems :: "reply list \<Rightarrow> string list option" where
  "stringsElems [] = Some []"
| "stringsElems (RNil # rs) = map_option ((#) []) (stringsElems rs)"
| "stringsElems (RBulk s # rs) = map_option ((#) s) (stringsElems rs)"
| "stringsElems (r # rs) = None"

fun redis_Strings :: "reply \<times> error option \<Rightarrow> string list \<times> error option" where
  "redis_Strings (r, Some e) = ([], Some e)"
| "redis_Strings (RArray rs, None) =
     (case stringsElems rs of
        Some ss \<Rightarrow> (ss, None)
      | None \<Rightarrow> ([], Some (ErrUnexpectedType ''Strings element'')))"
| "redis_Strings (RNil, None) = ([], Some ErrNil)"
| "redis_Strings (RError s, None) = ([], Some (ErrServer s))"
| "redis_Strings (r, None) = ([], Some (ErrUnexpectedType ''Strings''))"

fun redis_Values :: "reply \<times> error option \<Rightarrow> reply list \<times> error option" where
  "redis_Values (r, Some e) = ([], Some e)"
| "redis_Values (RArray rs, None) = (rs, None)"
| "redis_Values (RNil, None) = ([], Some ErrNil)"
| "redis_Values (RError s, None) = ([], Some (ErrServer s))"
| "redis_Values (r, None) = ([], Some (ErrUnexpectedType ''Values''))"

subsection \<open>The accumulator \<open>Results\<close>\<close>

text \<open>
  Modelled from the spec: the type \<open>Results\<close>, its constructor \<open>NewResults\<close>, its five
  \<open>observe\<close> methods and \<open>Merge\<close> are not in the sources at hand. The spec gives a
  \<open>Results\<close> a name, one counter of observed keys per value type, and size distributions
  (here histograms, as multisets of the observed numbers) of the string lengths, of the
  cardinalities of lists, sets, sorted sets and hashes, and of the sizes of the sampled
  members, fields and values. An observation counts one key of its type and adds its
  numbers; a collection of cardinality 0 adds no size sample of a member. \<open>Merge\<close> adds
  the other accumulator's statistics to the receiver's.
\<close>

record Results =
  Name :: string
  StringCount :: nat
  ListCount :: nat
  SetCount :: nat
  SortedSetCount :: nat
  HashCount :: nat
  StringSizes :: "int multiset"
  ListSizes :: "int multiset"
  ListElementSizes :: "int multiset"
  SetSizes :: "int multiset"
  SetElementSizes :: "int multiset"
  SortedSetSizes :: "int multiset"
  SortedSetElementSizes :: "int multiset"
  HashSizes :: "int multiset"
  HashElementSizes :: "int multiset"
  HashValueSizes :: "int multiset"

definition NewResults :: Results where
  "NewResults =
     \<lparr>Name = [], StringCount = 0, ListCount = 0, SetCount = 0, SortedSetCount = 0,
      HashCount = 0, StringSizes = {#}, ListSizes = {#}, ListElementSizes = {#},
      SetSizes = {#}, SetElementSizes = {#}, SortedSetSizes = {#},
      SortedSetElementSizes = {#}, HashSizes = {#}, HashElementSizes = {#},
      HashValueSizes = {#}\<rparr>"

definition memberSample :: "int \<Rightarrow> string \<Rightarrow> int multiset" where
  "memberSample cardinality m = (if cardinality = 0 then {#} else {#int (length m)#})"

definition observeString :: "string \<Rightarrow> string \<Rightarrow> Results \<Rightarrow> Results" where
  "observeString key val r =
     r\<lparr>StringCount := StringCount r + 1,
       StringSizes := StringSizes r + {#int (length val)#}\<rparr>"

definition observeList :: "string \<Rightarrow> int \<Rightarrow> string \<Rightarrow> Results \<Rightarrow> Results" where
  "observeList key len firstElement r =
     r\<lparr>ListCount := ListCount r + 1,
       ListSizes := ListSizes r + {#len#},
       ListElementSizes := ListElementSizes r + memberSample len firstElement\<rparr>"

definition observeSet :: "string \<Rightarrow> int \<Rightarrow> string \<Rightarrow> Results \<Rightarrow> Results" where
  "observeSet key cardinality sampledMember r =
     r\<lparr>SetCount := SetCount r + 1,
       SetSizes := SetSizes r + {#cardinality#},
       SetElementSizes := SetElementSizes r + memberSample cardinality sampledMember\<rparr>"

definition observeSortedSet :: "string \<Rightarrow> int \<Rightarrow> string \<Rightarrow> Results \<Rightarrow> Results" where
  "observeSortedSet key cardinality firstMember r =
     r\<lparr>SortedSetCount := SortedSetCount r + 1,
       SortedSetSizes := SortedSetSizes r + {#cardinality#},
       SortedSetElementSizes := SortedSetElementSizes r + memberSample cardinality firstMember\<rparr>"

definition observeHash :: "string \<Rightarrow> int \<Rightarrow> string \<Rightarrow> string \<Rightarrow> Results \<Rightarrow> Results" where
  "observeHash key fieldCount sampledField sampledValue r =
     r\<lparr>HashCount := HashCount r + 1,
       HashSizes := HashSizes r + {#fieldCount#},
       HashElementSizes := HashElementSizes r + memberSample fieldCount sampledField,
       HashValueSizes := HashValueSizes r + memberSample fieldCount sampledValue\<rparr>"

text \<open>\<open>Merge receiver other\<close> is the receiver after \<open>receiver.Merge(other)\<close>.\<close>

definition Merge :: "Results \<Rightarrow> Results \<Rightarrow> Results" where
  "Merge r other =
     r\<lparr>StringCount := StringCount r + StringCount other,
       ListCount := ListCount r + ListCount other,
       SetCount := SetCount r + SetCount other,
       SortedSetCount := SortedSetCount r + SortedSetCount other,
       HashCount := HashCount r + HashCount other,
       StringSizes := StringSizes r + StringSizes other,
       ListSizes := ListSizes r + ListSizes other,
       ListElementSizes := ListElementSizes r + ListElementSizes other,
       SetSizes := SetSizes r + SetSizes other,
       SetElementSizes := SetElementSizes r + SetElementSizes other,
       SortedSetSizes := SortedSetSizes r + SortedSetSizes other,
       SortedSetElementSizes := SortedSetElementSizes r + SortedSetElementSizes other,
       HashSizes := HashSizes r + HashSizes other,
       HashElementSizes := HashElementSizes r + HashElementSizes other,
       HashValueSizes := HashValueSizes r + HashValueSizes other\<rparr>"

subsection \<open>The samplers\<close>

type_synonym stats = "string \<rightharpoonup> Results"

text \<open>
  A Go function either returns or panics; a panic carries the connection as it was at
  that moment, since the commands already issued stay issued.
\<close>

datatype 'a exec = Ret 'a | Panic conn

text \<open>\<open>flush\<close>: flush the pipeline and return the replies, along with any error.\<close>

definition flush :: "conn \<Rightarrow> (reply list \<times> error option) \<times> conn" where
  "flush cn = (case Do (Cmd [] []) cn of (r, cn') \<Rightarrow> (redis_Values r, cn'))"

text \<open>
  \<open>ensureEntry\<close> returns the entry of the group, creating it with \<open>init\<close> when the map
  has none. The entry is a pointer in Go: the caller's later \<open>s.observe...\<close> changes the
  map's entry, which the samplers below write as an update of the map at the group.
\<close>

definition ensureEntry :: "stats \<Rightarrow> string \<Rightarrow> Results \<Rightarrow> Results \<times> stats" where
  "ensureEntry m groupName init =
     (case m groupName of
        Some s \<Rightarrow> (s, m)
      | None \<Rightarrow> (init, m(groupName \<mapsto> init)))"

definition randomKey :: "conn \<Rightarrow> string \<times> ValueType \<times> error option \<times> conn" where
  "randomKey cn =
     (case Do (Cmd ''RANDOMKEY'' []) cn of (r, cn1) \<Rightarrow>
      case redis_String r of (key, err) \<Rightarrow>
        if err \<noteq> None then (key, TypeUnknown, err, cn1)
        else
          (case Do (Cmd ''TYPE'' [AStr key]) cn1 of (r2, cn2) \<Rightarrow>
           case redis_String r2 of (typeStr, err2) \<Rightarrow>
             if err2 \<noteq> None then (key, TypeUnknown, err2, cn2)
             else (key, typeStr, None, cn2)))"

fun stringGroups :: "string \<Rightarrow> string \<Rightarrow> string list \<Rightarrow> stats \<Rightarrow> stats" where
  "stringGroups key val [] stats = stats"
| "stringGroups key val (agg # aggs) stats =
     (case ensureEntry stats agg NewResults of (s, m) \<Rightarrow>
        stringGroups key val aggs (m(agg \<mapsto> observeString key val s)))"

definition sampleString ::
  "string \<Rightarrow> conn \<Rightarrow> Aggregator \<Rightarrow> stats \<Rightarrow> (error option \<times> stats \<times> conn) exec" where
  "sampleString key cn aggregator stats =
     (case Do (Cmd ''GET'' [AStr key]) cn of (r, cn1) \<Rightarrow>
      case redis_String r of (val, err) \<Rightarrow>
        if err \<noteq> None then Ret (err, stats, cn1)
        else Ret (None, stringGroups key val (aggregator key TypeString) stats, cn1))"

text \<open>
  The loop over the groups of a list: \<open>ms[0]\<close> is evaluated in each round, after
  \<open>ensureEntry\<close>, and panics with an index out of range when \<open>ms\<close> is empty.
\<close>

fun listGroups ::
  "string \<Rightarrow> int \<Rightarrow> string list \<Rightarrow> string list \<Rightarrow> stats \<Rightarrow> conn \<Rightarrow>
     (error option \<times> stats \<times> conn) exec" where
  "listGroups key l ms [] stats cn = Ret (None, stats, cn)"
| "listGroups key l ms (g # gs) stats cn =
     (case ensureEntry stats g NewResults of (s, m) \<Rightarrow>
        (case ms of
           [] \<Rightarrow> Panic cn
         | m0 # rest \<Rightarrow> listGroups key l ms gs (m(g \<mapsto> observeList key l m0 s)) cn))"

definition sampleList ::
  "string \<Rightarrow> conn \<Rightarrow> Aggregator \<Rightarrow> stats \<Rightarrow> (error option \<times> stats \<times> conn) exec" where
  "sampleList key cn aggregator stats =
     (case flush (Send (Cmd ''LRANGE'' [AStr key, AInt 0, AInt 0])
                   (Send (Cmd ''LLEN'' [AStr key]) cn)) of ((replies, err), cn1) \<Rightarrow>
        if err \<noteq> None then Ret (err, stats, cn1)
        else if length replies \<ge> 2 then
          (case redis_Int (replies ! 0, None) of (l, err1) \<Rightarrow>
           case redis_Strings (replies ! 1, err1) of (ms, err2) \<Rightarrow>
             if err2 \<noteq> None then Ret (err2, stats, cn1)
             else listGroups key l ms (aggregator key TypeList) stats cn1)
        else Ret (None, stats, cn1))"

fun setGroups :: "string \<Rightarrow> int \<Rightarrow> string \<Rightarrow> string list \<Rightarrow> stats \<Rightarrow> stats" where
  "setGroups key l m [] stats = stats"
| "setGroups key l m (g # gs) stats =
     (case ensureEntry stats g NewResults of (s, st) \<Rightarrow>
        setGroups key l m gs (st(g \<mapsto> observeSet key l m s)))"

definition sampleSet ::
  "string \<Rightarrow> conn \<Rightarrow> Aggregator \<Rightarrow> stats \<Rightarrow> (error option \<times> stats \<times> conn) exec" where
  "sampleSet key cn aggregator stats =
     (case flush (Send (Cmd ''SRANDMEMBER'' [AStr key])
                   (Send (Cmd ''SCARD'' [AStr key]) cn)) of ((replies, err), cn1) \<Rightarrow>
        if err \<noteq> None then Ret (err, stats, cn1)
        else if length replies \<ge> 2 then
          (case redis_Int (replies ! 0, None) of (l, err1) \<Rightarrow>
           case redis_String (replies ! 1, err1) of (m, err2) \<Rightarrow>
             if err2 \<noteq> None then Ret (err2, stats, cn1)
             else Ret (None, setGroups key l m (aggregator key TypeSet) stats, cn1))
        else Ret (None, stats, cn1))"

fun sortedSetGroups ::
  "string \<Rightarrow> int \<Rightarrow> string list \<Rightarrow> string list \<Rightarrow> stats \<Rightarrow> conn \<Rightarrow>
     (error option \<times> stats \<times> conn) exec" where
  "sortedSetGroups key l ms [] stats cn = Ret (None, stats, cn)"
| "sortedSetGroups key l ms (g # gs) stats cn =
     (case ensureEntry stats g NewResults of (s, m) \<Rightarrow>
        (case ms of
           [] \<Rightarrow> Panic cn
         | m0 # rest \<Rightarrow>
             sortedSetGroups key l ms gs (m(g \<mapsto> observeSortedSet key l m0 s)) cn))"

definition sampleSortedSet ::
  "string \<Rightarrow> conn \<Rightarrow> Aggregator \<Rightarrow> stats \<Rightarrow> (error option \<times> stats \<times> conn) exec" where
  "sampleSortedSet key cn aggregator stats =
     (case flush (Send (Cmd ''ZRANGE'' [AStr key, AInt 0, AInt 0])
                   (Send (Cmd ''ZCARD'' [AStr key]) cn)) of ((replies, err), cn1) \<Rightarrow>
        if err \<noteq> None then Ret (err, stats, cn1)
        else if length replies \<ge> 2 then
          (case redis_Int (replies ! 0, None) of (l, err1) \<Rightarrow>
           case redis_Strings (replies ! 1, err1) of (ms, err2) \<Rightarrow>
             if err2 \<noteq> None then Ret (err2, stats, cn1)
             else sortedSetGroups key l ms (aggregator key TypeSortedSet) stats cn1)
        else Ret (None, stats, cn1))"

text \<open>
  The loop over the groups of a hash converts the two replies in every round, indexes
  \<open>fields[0]\<close> while building the HGET command (a panic when there is no field), and
  makes one more round trip per group.
\<close>

fun hashGroups ::
  "string \<Rightarrow> reply list \<Rightarrow> string list \<Rightarrow> stats \<Rightarrow> conn \<Rightarrow>
     (error option \<times> stats \<times> conn) exec" where
  "hashGroups key replies [] stats cn = Ret (None, stats, cn)"
| "hashGroups key replies (g # gs) stats cn =
     (case redis_Int (replies ! 0, None) of (l, err) \<Rightarrow>
      case redis_Strings (replies ! 1, err) of (fieldNames, err1) \<Rightarrow>
        if err1 \<noteq> None then Ret (err1, stats, cn)
        else
          (case fieldNames of
             [] \<Rightarrow> Panic cn
           | f0 # rest \<Rightarrow>
               (case Do (Cmd ''HGET'' [AStr key, AStr f0]) cn of (r, cn1) \<Rightarrow>
                case redis_String r of (val, err2) \<Rightarrow>
                  if err2 \<noteq> None then Ret (err2, stats, cn1)
                  else
                    (case ensureEntry stats g NewResults of (s, m) \<Rightarrow>
                       hashGroups key replies gs (m(g \<mapsto> observeHash key l f0 val s)) cn1))))"

definition sampleHash ::
  "string \<Rightarrow> conn \<Rightarrow> Aggregator \<Rightarrow> stats \<Rightarrow> (error option \<times> stats \<times> conn) exec" where
  "sampleHash key cn aggregator stats =
     (case flush (Send (Cmd ''HKEYS'' [AStr key])
                   (Send (Cmd ''HLEN'' [AStr key]) cn)) of ((replies, err), cn1) \<Rightarrow>
        if err \<noteq> None then Ret (err, stats, cn1)
        else if length replies \<ge> 2 then hashGroups key replies (aggregator key TypeHash) stats cn1
        else Ret (None, stats, cn1))"

subsection \<open>\<open>Run\<close>\<close>

datatype notification = Progress int string int

text \<open>The interval of the progress messages, computed once before the loop.\<close>

definition progressInterval :: "int \<Rightarrow> int" where
  "progressInterval numKeys =
     (let interval = numKeys sdiv 100 in if interval = 0 then 100 else interval)"

definition progressStep ::
  "Options \<Rightarrow> int \<Rightarrow> int \<Rightarrow> int \<Rightarrow> notification list \<Rightarrow> int \<times> notification list" where
  "progressStep opts interval i lastInterval out =
     (if i sdiv interval \<noteq> lastInterval
      then (i sdiv interval, out @ [Progress i (Host opts) (Port opts)])
      else (lastInterval, out))"

text \<open>The \<open>switch\<close> on the value type: the sampler of the type, or none (\<open>default\<close>).\<close>

definition dispatch ::
  "ValueType \<Rightarrow>
     (string \<Rightarrow> conn \<Rightarrow> Aggregator \<Rightarrow> stats \<Rightarrow> (error option \<times> stats \<times> conn) exec) option" where
  "dispatch vt =
     (if vt = TypeString then Some sampleString
      else if vt = TypeList then Some sampleList
      else if vt = TypeSet then Some sampleSet
      else if vt = TypeSortedSet then Some sampleSortedSet
      else if vt = TypeHash then Some sampleHash
      else None)"

text \<open>
  The sampling loop, from iteration \<open>i\<close> on. It returns the map, the error, the connection
  and the progress messages printed so far.
\<close>

function Run_loop ::
  "Options \<Rightarrow> Aggregator \<Rightarrow> int \<Rightarrow> int \<Rightarrow> int \<Rightarrow> stats \<Rightarrow> conn \<Rightarrow> notification list \<Rightarrow>
     (stats \<times> error option \<times> conn \<times> notification list) exec" where
  "Run_loop opts aggregator interval i lastInterval stats cn out =
     (if i < NumKeys opts then
        (case randomKey cn of (key, vt, err, cn1) \<Rightarrow>
           if err \<noteq> None then Ret (stats, err, cn1, out)
           else
             (case progressStep opts interval i lastInterval out of (lastInterval', out') \<Rightarrow>
                (case dispatch vt of
                   None \<Rightarrow> Ret (stats, Some (ErrUnknownType key), cn1, out')
                 | Some sampler \<Rightarrow>
                     (case sampler key cn1 aggregator stats of
                        Panic c \<Rightarrow> Panic c
                      | Ret (err', stats', cn2) \<Rightarrow>
                          if err' \<noteq> None then Ret (stats', err', cn2, out')
                          else Run_loop opts aggregator interval (i + 1) lastInterval'
                                 stats' cn2 out'))))
      else Ret (stats, None, cn, out))"
  by pat_completeness auto
termination
  by (relation "measure (\<lambda>(opts, aggregator, interval, i, lastInterval, stats, cn, out).
        nat (NumKeys opts - i))") auto

declare Run_loop.simps [simp del]

text \<open>A freshly dialled connection: nothing queued, nothing issued yet.\<close>

definition connect :: "(error + reply) list \<Rightarrow> conn" where
  "connect s = \<lparr>script = s, pending = 0, trace = []\<rparr>"

text \<open>
  \<open>Run\<close>. The outcome of \<open>redis.Dial\<close> is an input: an error, or the script of the
  connection it opened. The returned map is a Go map value, which could be nil (\<open>None\<close>);
  the connection is returned as well, for the theorems, and is absent when dialling failed.
\<close>

definition Run ::
  "Options \<Rightarrow> Aggregator \<Rightarrow> error + (error + reply) list \<Rightarrow>
     (stats option \<times> error option \<times> conn option \<times> notification list) exec" where
  "Run opts aggregator dial =
     (let stats = Map.empty in
      case dial of
        Inl err \<Rightarrow> Ret (Some stats, Some err, None, [])
      | Inr s \<Rightarrow>
          (case Run_loop opts aggregator (progressInterval (NumKeys opts)) 0 0 stats
                  (connect s) [] of
             Panic c \<Rightarrow> Panic c
           | Ret (stats', err, cn, out) \<Rightarrow> Ret (Some stats', err, Some cn, out)))"

subsection \<open>Notions used by the theorems\<close>

text \<open>The accumulator that a map holds for a bucket: a missing entry counts as empty.\<close>

definition bucket :: "stats \<Rightarrow> string \<Rightarrow> Results" where
  "bucket m g = (case m g of None \<Rightarrow> NewResults | Some r \<Rightarrow> r)"

text \<open>The per-type counters of one accumulator, summed, and their sum over all buckets.\<close>

definition keyCount :: "Results \<Rightarrow> nat" where
  "keyCount r = StringCount r + ListCount r + SetCount r + SortedSetCount r + HashCount r"

definition totalCount :: "stats \<Rightarrow> nat" where
  "totalCount m = (\<Sum>g \<in> dom m. keyCount (bucket m g))"

text \<open>
  \<open>counted m gs m'\<close>: the map \<open>m'\<close> has the buckets of \<open>m\<close> and those named in \<open>gs\<close>, and
  each bucket has counted as many more keys as its name occurs in \<open>gs\<close>.
\<close>

definition counted :: "stats \<Rightarrow> string list \<Rightarrow> stats \<Rightarrow> bool" where
  "counted m gs m' \<longleftrightarrow>
     dom m' = dom m \<union> set gs \<and>
     (\<forall>h. keyCount (bucket m' h) = keyCount (bucket m h) + count_list gs h)"

text \<open>
  The observation of one hash, as the hash sampler records it for a group \<open>g\<close> when the
  field it selected is \<open>f\<close> and HGET returned \<open>v\<close>.
\<close>

definition recordHash :: "string \<Rightarrow> int \<Rightarrow> string \<Rightarrow> string \<times> string \<Rightarrow> stats \<Rightarrow> stats" where
  "recordHash key l f gv m = m(fst gv \<mapsto> observeHash key l f (snd gv) (bucket m (fst gv)))"

text \<open>
  The keys that a trace shows as sampled, with their types: one per successful TYPE
  round trip.
\<close>

fun sampled :: "event list \<Rightarrow> (string \<times> ValueType) list" where
  "sampled [] = []"
| "sampled (Did (Cmd name [AStr key]) r None # es) =
     (if name = ''TYPE'' \<and> snd (redis_String (r, None)) = None
      then (key, fst (redis_String (r, None))) # sampled es
      else sampled es)"
| "sampled (e # es) = sampled es"

text \<open>
  Failed round trips. An event of the trace has failed when it is a \<open>Do\<close> that returned
  an error; a trace is clean when no event has failed, and ends failed with \<open>err\<close> when
  its last event is a \<open>Do\<close> that returned \<open>err\<close> and nothing failed before. A sampler's or
  the loop's result is settled when its connection is clean, or ends failed with the
  error that the result carries.
\<close>

fun failed :: "event \<Rightarrow> bool" where
  "failed (Did c r (Some e)) = True"
| "failed ev = False"

definition clean :: "event list \<Rightarrow> bool" where
  "clean t = list_all (\<lambda>ev. \<not> failed ev) t"

definition endsFailed :: "event list \<Rightarrow> error option \<Rightarrow> bool" where
  "endsFailed t err =
     (case rev t of
        Did c r (Some e) # pre \<Rightarrow> clean pre \<and> err = Some e
      | _ \<Rightarrow> False)"

definition settled :: "(error option \<times> stats \<times> conn) exec \<Rightarrow> bool" where
  "settled res =
     (case res of
        Ret (err, stats, cn) \<Rightarrow> clean (trace cn) \<or> endsFailed (trace cn) err
      | Panic cn \<Rightarrow> clean (trace cn))"

definition settledRun :: "(stats \<times> error option \<times> conn \<times> notification list) exec \<Rightarrow> bool" where
  "settledRun res =
     (case res of
        Ret (m, err, cn, out) \<Rightarrow> clean (trace cn) \<or> endsFailed (trace cn) err
      | Panic cn \<Rightarrow> clean (trace cn))"

text \<open>The result of the loop without the progress messages.\<close>

definition core :: "('m \<times> 'e \<times> 'c \<times> notification list) exec \<Rightarrow> ('m \<times> 'e \<times> 'c) exec" where
  "core res = (case res of Ret (m, err, c, out) \<Rightarrow> Ret (m, err, c) | Panic c \<Rightarrow> Panic c)"

definition printed :: "('m \<times> 'e \<times> 'c \<times> notification list) exec \<Rightarrow> notification list" where
  "printed res = (case res of Ret (m, err, c, out) \<Rightarrow> out | Panic c \<Rightarrow> [])"

definition isPanic :: "'a exec \<Rightarrow> bool" where
  "isPanic res = (case res of Ret x \<Rightarrow> False | Panic c \<Rightarrow> True)"

text \<open>An aggregator may return no group at all; this one never returns any.\<close>

definition NoGroups :: Aggregator where
  "NoGroups key valueType = []"

text \<open>
  Modelled from the spec: an observation is one call of an \<open>observe\<close> method with its
  payload, and a run's accumulator for a bucket is what the observations routed to the
  bucket make of \<open>NewResults\<close>.
\<close>

datatype observation =
    ObsString string string
  | ObsList string int string
  | ObsSet string int string
  | ObsSortedSet string int string
  | ObsHash string int string string

fun observe :: "observation \<Rightarrow> Results \<Rightarrow> Results" where
  "observe (ObsString key val) r = observeString key val r"
| "observe (ObsList key l m) r = observeList key l m r"
| "observe (ObsSet key l m) r = observeSet key l m r"
| "observe (ObsSortedSet key l m) r = observeSortedSet key l m r"
| "observe (ObsHash key l f v) r = observeHash key l f v r"

definition accumulate :: "observation list \<Rightarrow> Results" where
  "accumulate obs = fold observe obs NewResults"

text \<open>
  The merge loop of the multi-instance example (\<^verbatim>\<open>main.go\<close>), for one bucket: the first
  run's accumulator is adopted, each later one is merged into it.
\<close>

fun mergeAll :: "Results list \<Rightarrow> Results" where
  "mergeAll [] = NewResults"
| "mergeAll (r # rs) = foldl Merge r rs"

lemmas observe_defs =
  observeString_def observeList_def observeSet_def observeSortedSet_def observeHash_def

lemmas type_defs =
  TypeString_def TypeList_def TypeSet_def TypeHash_def TypeSortedSet_def TypeUnknown_def

lemmas run_eval =
  Run_def Run_loop.simps connect_def randomKey_def Do_def Send_def flush_def Let_def
  progressInterval_def progressStep_def dispatch_def
  sampleString_def sampleList_def sampleSet_def sampleSortedSet_def sampleHash_def
  ensureEntry_def type_defs signed_divide_int_def AnyKey_def NoGroups_def

section \<open>Theorems\<close>

subsection \<open>The connection and its trace\<close>

lemma Do_one:
  "pending cn = 0 \<Longrightarrow> script cn = Inr r # s \<Longrightarrow> name \<noteq> [] \<Longrightarrow>
   Do (Cmd name args) cn
     = ((r, firstError [r]),
        cn\<lparr>script := s, pending := 0,
           trace := trace cn @ [Did (Cmd name args) r (firstError [r])]\<rparr>)"
  by (simp add: Do_def)

lemma Do_trace: "Do c cn = (res, cn') \<Longrightarrow> trace cn' = trace cn @ [Did c (fst res) (snd res)]"
  by (auto simp: Do_def Let_def split: if_splits prod.splits sum.splits)

lemma sampled_append: "sampled (xs @ ys) = sampled xs @ sampled ys"
  by (induction xs rule: sampled.induct) auto

lemma sampled_other [simp]: "name \<noteq> ''TYPE'' \<Longrightarrow> sampled (Did (Cmd name args) r e # es) = sampled es"
  by (cases "Did (Cmd name args) r e # es" rule: sampled.cases) auto

lemma readReplies_length: "readReplies n s = (Inr rs, rest) \<Longrightarrow> length rs = n"
  by (induction n s arbitrary: rs rest rule: readReplies.induct)
     (auto split: prod.splits sum.splits)

lemma flush_two:
  assumes "flush (Send c2 (Send c1 cn)) = ((replies, err), cn1)"
  shows "sampled (trace cn1) = sampled (trace cn)" and "err = None \<Longrightarrow> 2 \<le> length replies"
proof -
  let ?cn = "Send c2 (Send c1 cn)"
  obtain res where d: "Do (Cmd [] []) ?cn = (res, cn1)" and v: "redis_Values res = (replies, err)"
    using assms by (auto simp: flush_def split: prod.splits)
  have "trace cn1 = trace cn @ [Sent c1, Sent c2, Did (Cmd [] []) (fst res) (snd res)]"
    using Do_trace[OF d] by (simp add: Send_def)
  then show "sampled (trace cn1) = sampled (trace cn)"
    by (simp add: sampled_append)
  assume "err = None"
  then show "2 \<le> length replies"
    using d v
    by (auto simp: Do_def Send_def Let_def split: if_splits prod.splits sum.splits
             dest: readReplies_length)
qed

lemma flush_pending:
  "flush (Send c2 (Send c1 cn)) = (x, cn1) \<Longrightarrow> pending cn1 = 0"
  by (auto simp: flush_def Do_def Send_def Let_def split: prod.splits sum.splits if_splits)

subsection \<open>One round of the loop\<close>

text \<open>
  A round of \<open>Run_loop\<close> ends the loop in one of five ways or goes on to the next round;
  the rule below names the six cases, and the induction rule after it follows the rounds.
\<close>

lemma core_Ret [simp]: "core (Ret (m, e, c, out)) = Ret (m, e, c)"
  by (simp add: core_def)

lemma core_Panic [simp]: "core (Panic c) = Panic c"
  by (simp add: core_def)

lemma core_eq_Ret: "core res = Ret (m, e, c) \<Longrightarrow> \<exists>out. res = Ret (m, e, c, out)"
  by (auto simp: core_def split: exec.splits)

lemma Run_loop_cases [case_names stop key_error unknown panic sampler_error continue]:
  obtains
    (stop) "\<not> i < NumKeys opts"
      "Run_loop opts agg iv i li stats cn out = Ret (stats, None, cn, out)"
  | (key_error) key vt e cn1 where "i < NumKeys opts" "randomKey cn = (key, vt, Some e, cn1)"
      "Run_loop opts agg iv i li stats cn out = Ret (stats, Some e, cn1, out)"
  | (unknown) key vt cn1 where "i < NumKeys opts" "randomKey cn = (key, vt, None, cn1)"
      "dispatch vt = None"
      "Run_loop opts agg iv i li stats cn out
         = Ret (stats, Some (ErrUnknownType key), cn1, snd (progressStep opts iv i li out))"
  | (panic) key vt cn1 sampler c where "i < NumKeys opts" "randomKey cn = (key, vt, None, cn1)"
      "dispatch vt = Some sampler" "sampler key cn1 agg stats = Panic c"
      "Run_loop opts agg iv i li stats cn out = Panic c"
  | (sampler_error) key vt cn1 sampler e stats' cn2 where "i < NumKeys opts"
      "randomKey cn = (key, vt, None, cn1)"
      "dispatch vt = Some sampler" "sampler key cn1 agg stats = Ret (Some e, stats', cn2)"
      "Run_loop opts agg iv i li stats cn out
         = Ret (stats', Some e, cn2, snd (progressStep opts iv i li out))"
  | (continue) key vt cn1 sampler stats' cn2 where "i < NumKeys opts"
      "randomKey cn = (key, vt, None, cn1)"
      "dispatch vt = Some sampler" "sampler key cn1 agg stats = Ret (None, stats', cn2)"
      "Run_loop opts agg iv i li stats cn out
         = Run_loop opts agg iv (i + 1) (fst (progressStep opts iv i li out)) stats' cn2
             (snd (progressStep opts iv i li out))"
proof (cases "i < NumKeys opts")
  case False
  then show ?thesis using stop by (simp add: Run_loop.simps)
next
  case lt: True
  obtain key vt err cn1 where rk: "randomKey cn = (key, vt, err, cn1)"
    by (cases "randomKey cn") auto
  show ?thesis
  proof (cases err)
    case (Some e)
    then show ?thesis using key_error[of key vt e cn1] lt rk
      by (simp add: Run_loop.simps[of opts agg iv i])
  next
    case None
    show ?thesis
    proof (cases "dispatch vt")
      case dn: None
      then show ?thesis using unknown[of key vt cn1] lt rk None
        by (simp add: Run_loop.simps[of opts agg iv i] split: prod.splits)
    next
      case (Some sampler)
      show ?thesis
      proof (cases "sampler key cn1 agg stats")
        case (Panic c)
        then show ?thesis using panic[of key vt cn1 sampler c] lt rk None Some
          by (simp add: Run_loop.simps[of opts agg iv i] split: prod.splits)
      next
        case (Ret x)
        obtain err' stats' cn2 where x: "x = (err', stats', cn2)" by (cases x) auto
        show ?thesis
        proof (cases err')
          case e: (Some e)
          then show ?thesis using sampler_error[of key vt cn1 sampler e stats' cn2] lt rk None Some Ret x
            by (simp add: Run_loop.simps[of opts agg iv i] split: prod.splits)
        next
          case n: None
          then show ?thesis using continue[of key vt cn1 sampler stats' cn2] lt rk None Some Ret x
            by (simp add: Run_loop.simps[of opts agg iv i] split: prod.splits)
        qed
      qed
    qed
  qed
qed

lemma Run_loop_induct [case_names step]:
  assumes "\<And>i li stats cn out.
     (\<And>key vt cn1 sampler stats' cn2.
        i < NumKeys opts \<Longrightarrow> randomKey cn = (key, vt, None, cn1) \<Longrightarrow>
        dispatch vt = Some sampler \<Longrightarrow> sampler key cn1 agg stats = Ret (None, stats', cn2) \<Longrightarrow>
        P (i + 1) (fst (progressStep opts iv i li out)) stats' cn2
          (snd (progressStep opts iv i li out))) \<Longrightarrow>
     P i li stats cn out"
  shows "P i li stats cn out"
proof (induction "nat (NumKeys opts - i)" arbitrary: i li stats cn out rule: less_induct)
  case less
  show ?case
    by (rule assms, rule less) simp
qed

text \<open>The progress bookkeeping has no influence on the map, the error and the connection.\<close>

lemma Run_loop_core:
  "core (Run_loop opts agg iv i li stats cn out) = core (Run_loop opts agg iv' i li' stats cn out')"
proof (induction opts agg iv i li stats cn out arbitrary: iv' li' out' rule: Run_loop.induct)
  case (1 opts agg iv i li stats cn out)
  show ?case
    apply (subst Run_loop.simps[of opts agg iv i li stats cn out])
    apply (subst Run_loop.simps[of opts agg iv' i li' stats cn out'])
    apply (auto split: prod.splits option.splits exec.splits intro: 1)
    done
qed

text \<open>
  A run over the first \<open>j\<close> keys that completes is a prefix of every longer run on the
  same connection: the longer run goes on from the map and the connection it left.
\<close>

lemma Run_loop_prefix:
  "Run_loop (opts\<lparr>NumKeys := j\<rparr>) agg iv i li stats cn out = Ret (m, None, c, out1) \<Longrightarrow>
   i \<le> j \<Longrightarrow> j \<le> NumKeys opts \<Longrightarrow>
   core (Run_loop opts agg iv' i li' stats cn out') = core (Run_loop opts agg iv'' j li'' m c out'')"
proof (induction i li stats cn out arbitrary: iv' li' out'
        rule: Run_loop_induct[where opts = "opts\<lparr>NumKeys := j\<rparr>" and agg = agg and iv = iv])
  case (step i li stats cn out)
  let ?o = "opts\<lparr>NumKeys := j\<rparr>"
  show ?case
  proof (cases rule: Run_loop_cases[where i = i and opts = ?o and agg = agg and iv = iv and li = li
          and stats = stats and cn = cn and out = out])
    case stop
    with step.prems have "i = j" "m = stats" "c = cn" by simp_all
    then show ?thesis
      by (simp add: Run_loop_core[of opts agg iv' j li' stats cn out' iv'' li'' out''])
  next
    case (continue key vt cn1 sampler stats' cn2)
    have lt: "i < NumKeys opts" using continue(1) step.prems by simp
    have "core (Run_loop opts agg iv' i li' stats cn out')
        = core (Run_loop opts agg iv' (i + 1) (fst (progressStep opts iv' i li' out')) stats' cn2
             (snd (progressStep opts iv' i li' out')))"
      using lt continue(2,3,4) by (simp add: Run_loop.simps[of opts agg iv' i] split: prod.splits)
    also have "\<dots> = core (Run_loop opts agg iv'' j li'' m c out'')"
      using step.IH[OF continue(1,2,3,4)] step.prems continue by simp
    finally show ?thesis .
  qed (use step.prems in \<open>simp_all only: exec.inject prod.inject option.distinct exec.distinct simp_thms\<close>)

qed

lemma Run_loop_unknown:
  "i < NumKeys opts \<Longrightarrow> randomKey cn = (key, vt, None, cn1) \<Longrightarrow> dispatch vt = None \<Longrightarrow>
   core (Run_loop opts agg iv i li stats cn out) = Ret (stats, Some (ErrUnknownType key), cn1)"
  by (subst Run_loop.simps) (simp split: prod.splits)

subsection \<open>Progress messages\<close>

lemma sdiv_nonneg: "0 \<le> a \<Longrightarrow> 0 < b \<Longrightarrow> a sdiv b = a div (b::int)"
  by (cases "a = 0") (simp_all add: signed_divide_int_def)

lemma div_changes:
  fixes n i :: int
  assumes "0 < n" "0 < i"
  shows "(i div n \<noteq> (i - 1) div n) \<longleftrightarrow> n dvd i"
proof (cases "i mod n = 0")
  case True
  have "i - 1 = n * (i div n - 1) + (n - 1)"
    using True by (simp add: algebra_simps) (metis mult_div_mod_eq add.right_neutral)
  then have "(i - 1) div n = i div n - 1"
    using assms by (intro int_div_pos_eq[where r = "n - 1"]) simp_all
  then show ?thesis using True by (simp add: mod_eq_0_iff_dvd)
next
  case False
  have "0 \<le> i mod n" "i mod n < n" using assms by simp_all
  have "i - 1 = n * (i div n) + (i mod n - 1)"
    by (simp add: algebra_simps)
  then have "(i - 1) div n = i div n"
    using assms False \<open>0 \<le> i mod n\<close> \<open>i mod n < n\<close>
    by (intro int_div_pos_eq[where r = "i mod n - 1"]) simp_all
  then show ?thesis using False by (simp add: mod_eq_0_iff_dvd)
qed

lemma progressInterval_pos: "0 < n \<Longrightarrow> 0 < progressInterval n"
proof -
  assume "0 < n"
  then have "0 \<le> n div 100" by simp
  then show ?thesis using \<open>0 < n\<close>
    by (simp add: progressInterval_def Let_def sdiv_nonneg)
qed

lemma progressStep_eq:
  assumes "0 < iv" "0 \<le> i" "li = (if i = 0 then 0 else (i - 1) div iv)"
  shows "progressStep opts iv i li out
     = (i div iv, out @ map (\<lambda>k. Progress k (Host opts) (Port opts))
                         (filter (\<lambda>k. 0 < k \<and> iv dvd k) [i]))"
proof (cases "i = 0")
  case True
  then show ?thesis using assms by (simp add: progressStep_def)
next
  case False
  then have "0 < i" using assms by simp
  then show ?thesis using assms div_changes[OF assms(1) \<open>0 < i\<close>]
    by (auto simp add: progressStep_def sdiv_nonneg)
qed

lemma Run_loop_printed:
  "Run_loop opts agg iv i li stats cn out = Ret (m, None, c, out1) \<Longrightarrow>
   0 < iv \<Longrightarrow> 0 \<le> i \<Longrightarrow> li = (if i = 0 then 0 else (i - 1) div iv) \<Longrightarrow>
   out1 = out @ map (\<lambda>k. Progress k (Host opts) (Port opts))
                 (filter (\<lambda>k. 0 < k \<and> iv dvd k) [i..NumKeys opts - 1])"
proof (induction i li stats cn out rule: Run_loop_induct[where opts = opts and agg = agg and iv = iv])
  case (step i li stats cn out)
  show ?case
  proof (cases rule: Run_loop_cases[where i = i and opts = opts and agg = agg and iv = iv
          and li = li and stats = stats and cn = cn and out = out])
    case stop
    then show ?thesis using step.prems by simp
  next
    case (continue key vt cn1 sampler stats' cn2)
    have ps: "progressStep opts iv i li out
        = (i div iv, out @ map (\<lambda>k. Progress k (Host opts) (Port opts))
                         (filter (\<lambda>k. 0 < k \<and> iv dvd k) [i]))"
      using step.prems by (intro progressStep_eq) simp_all
    have up: "[i..NumKeys opts - 1] = i # [i + 1..NumKeys opts - 1]"
      using continue(1) by (simp add: upto_rec1)
    have eq: "Run_loop opts agg iv (i + 1) (i div iv) stats' cn2
               (out @ map (\<lambda>k. Progress k (Host opts) (Port opts))
                         (filter (\<lambda>k. 0 < k \<and> iv dvd k) [i]))
             = Ret (m, None, c, out1)"
      using step.prems(1) continue(5) by (simp add: ps)
    note IH = step.IH[OF continue(1,2,3,4), unfolded ps fst_conv snd_conv]
    have "out1 = (out @ map (\<lambda>k. Progress k (Host opts) (Port opts))
                         (filter (\<lambda>k. 0 < k \<and> iv dvd k) [i]))
               @ map (\<lambda>k. Progress k (Host opts) (Port opts))
                 (filter (\<lambda>k. 0 < k \<and> iv dvd k) [i + 1..NumKeys opts - 1])"
      by (rule IH[OF eq]) (use step.prems in simp_all)
    then show ?thesis by (simp add: up)
  qed (use step.prems in \<open>simp_all only: exec.inject prod.inject option.distinct exec.distinct simp_thms\<close>)
qed

text \<open>A connection that delivers \<open>n\<close> string keys lets the loop complete \<open>n\<close> rounds.\<close>

lemma Run_loop_string_keys:
  "NumKeys opts = i + int n \<Longrightarrow> pending cn = 0 \<Longrightarrow>
   script cn = concat (replicate n [Inr (RBulk k), Inr (RStatus ''string''), Inr (RBulk v)]) @ rest \<Longrightarrow>
   \<exists>m c out'. Run_loop opts agg iv i li stats cn out = Ret (m, None, c, out')"
proof (induction n arbitrary: i li stats cn out)
  case 0
  then show ?case by (simp add: Run_loop.simps)
next
  case (Suc n)
  let ?tl = "concat (replicate n [Inr (RBulk k), Inr (RStatus ''string''), Inr (RBulk v)]) @ rest"
  let ?c1 = "cn\<lparr>script := Inr (RStatus ''string'') # Inr (RBulk v) # ?tl, pending := 0,
            trace := trace cn @ [Did (Cmd ''RANDOMKEY'' []) (RBulk k) None]\<rparr>"
  let ?c2 = "?c1\<lparr>script := Inr (RBulk v) # ?tl, pending := 0,
            trace := trace ?c1 @ [Did (Cmd ''TYPE'' [AStr k]) (RStatus ''string'') None]\<rparr>"
  let ?c3 = "?c2\<lparr>script := ?tl, pending := 0,
            trace := trace ?c2 @ [Did (Cmd ''GET'' [AStr k]) (RBulk v) None]\<rparr>"
  have rk: "randomKey cn = (k, ''string'', None, ?c2)"
    using Suc.prems(2,3) by (simp add: randomKey_def Do_one)
  have ss: "sampleString k ?c2 agg stats
      = Ret (None, stringGroups k v (agg k TypeString) stats, ?c3)"
    by (simp add: sampleString_def Do_one)
  have d: "dispatch ''string'' = Some sampleString"
    by (simp add: dispatch_def TypeString_def)
  have lt: "i < NumKeys opts" using Suc.prems(1) by simp
  have "Run_loop opts agg iv i li stats cn out
      = Run_loop opts agg iv (i + 1) (fst (progressStep opts iv i li out))
          (stringGroups k v (agg k TypeString) stats) ?c3 (snd (progressStep opts iv i li out))"
    using lt rk ss d by (simp add: Run_loop.simps[of opts agg iv i] split: prod.splits)
  moreover have "\<exists>m c out'. Run_loop opts agg iv (i + 1) (fst (progressStep opts iv i li out))
          (stringGroups k v (agg k TypeString) stats) ?c3 (snd (progressStep opts iv i li out))
       = Ret (m, None, c, out')"
    by (rule Suc.IH) (use Suc.prems(1) in simp_all)
  ultimately show ?case by simp
qed

text \<open>
  C1 says that the interval is \<open>max(NumKeys/100, 100)\<close> and that a run over 250 keys
  prints at \<open>i = 100\<close> and \<open>i = 200\<close> only. The interval for 250 keys is 2, and a run over
  250 keys prints already at \<open>i = 2\<close>.
\<close>

theorem progress_interval_counterexample:
  "progressInterval 250 = 2 \<and> max (250 sdiv 100) (100::int) = 100
   \<and> printed (Run \<lparr>Host = ''h'', Port = 6379, NumKeys = 250\<rparr> (AnyKey ''all'')
        (Inr [Inr (RBulk ''k''), Inr (RStatus ''string''), Inr (RBulk ''v''),
              Inr (RBulk ''k''), Inr (RStatus ''string''), Inr (RBulk ''v''),
              Inr (RBulk ''k''), Inr (RStatus ''string''), Inr (RBulk ''v'')]))
       = [Progress 2 ''h'' 6379]"
  by (simp add: run_eval printed_def)

text \<open>
  C1, amended: the interval is computed once, before the loop, as \<open>NumKeys / 100\<close>
  (truncating), or 100 when that quotient is 0; a run that completes without error has
  printed one progress message at each positive multiple of the interval below \<open>NumKeys\<close>,
  and no other.
\<close>

theorem Run_progress_cadence:
  assumes "Run opts agg (Inr s) = Ret (m, None, c, out)"
  shows "out = map (\<lambda>k. Progress k (Host opts) (Port opts))
                 (filter (\<lambda>k. progressInterval (NumKeys opts) dvd k) [1..NumKeys opts - 1])"
proof -
  from assms obtain m' c' where
    r: "Run_loop opts agg (progressInterval (NumKeys opts)) 0 0 Map.empty (connect s) []
          = Ret (m', None, c', out)"
    by (auto simp: Run_def Let_def split: exec.splits)
  show ?thesis
  proof (cases "0 < NumKeys opts")
    case False
    then show ?thesis using r by (simp add: Run_loop.simps)
  next
    case True
    have up: "[0..NumKeys opts - 1] = 0 # [1..NumKeys opts - 1]"
      using True by (simp add: upto_rec1)
    have "out = [] @ map (\<lambda>k. Progress k (Host opts) (Port opts))
                 (filter (\<lambda>k. 0 < k \<and> progressInterval (NumKeys opts) dvd k) [0..NumKeys opts - 1])"
      by (rule Run_loop_printed[OF r progressInterval_pos[OF True]]) simp_all
    also have "filter (\<lambda>k. 0 < k \<and> progressInterval (NumKeys opts) dvd k) [0..NumKeys opts - 1]
       = filter (\<lambda>k. progressInterval (NumKeys opts) dvd k) [1..NumKeys opts - 1]"
      unfolding up by (auto intro!: filter_cong)
    finally show ?thesis by simp
  qed
qed

theorem Run_progress_cadence_witness:
  "printed (Run \<lparr>Host = ''h'', Port = 6379, NumKeys = 250\<rparr> NoGroups
      (Inr (concat (replicate 250 [Inr (RBulk ''k''), Inr (RStatus ''string''), Inr (RBulk ''v'')]))))
   = map (\<lambda>k. Progress (2 * k) ''h'' 6379) [1..124]"
proof -
  let ?o = "\<lparr>Host = ''h'', Port = 6379, NumKeys = 250\<rparr>"
  let ?s = "concat (replicate 250 [Inr (RBulk ''k''), Inr (RStatus ''string''), Inr (RBulk ''v'')])"
  have "\<exists>m c out. Run_loop ?o NoGroups (progressInterval (NumKeys ?o)) 0 0 Map.empty (connect ?s) []
      = Ret (m, None, c, out)"
    by (rule Run_loop_string_keys[where n = 250 and rest = "[]"]) (simp_all add: connect_def)
  then obtain m c out where r: "Run ?o NoGroups (Inr ?s) = Ret (Some m, None, Some c, out)"
    by (auto simp: Run_def Let_def)
  have "out = map (\<lambda>k. Progress k ''h'' 6379) (filter (\<lambda>k. 2 dvd k) [1..249])"
    using Run_progress_cadence[OF r] by (simp add: progressInterval_def signed_divide_int_def)
  also have "\<dots> = map (\<lambda>k. Progress (2 * k) ''h'' 6379) [1..124]"
    by code_simp
  finally show ?thesis using r by (simp add: printed_def)
qed

subsection \<open>Unknown value types\<close>

text \<open>
  C3: when the first \<open>j\<close> keys have been sampled without error, leaving the map \<open>m\<close>,
  and the next key reports a type outside the five recognized ones, \<open>Run\<close> returns \<open>m\<close>
  as it is with a non-nil error naming the key, and the connection is left right after
  the reply to TYPE: no sampler ran for the key, no further key was requested.
\<close>

theorem Run_unknown_type_aborts:
  assumes "Run (opts\<lparr>NumKeys := j\<rparr>) agg (Inr s) = Ret (Some m, None, Some c, out)"
    and "0 \<le> j" and "j < NumKeys opts"
    and "randomKey c = (key, vt, None, c1)"
    and "vt \<notin> {TypeString, TypeList, TypeSet, TypeSortedSet, TypeHash}"
  shows "\<exists>out'. Run opts agg (Inr s) = Ret (Some m, Some (ErrUnknownType key), Some c1, out')"
proof -
  from assms(1) have pre: "Run_loop (opts\<lparr>NumKeys := j\<rparr>) agg (progressInterval j) 0 0 Map.empty (connect s) []
      = Ret (m, None, c, out)"
    by (auto simp: Run_def split: exec.splits)
  have "core (Run_loop opts agg (progressInterval (NumKeys opts)) 0 0 Map.empty (connect s) [])
      = core (Run_loop opts agg 1 j 0 m c [])"
    by (rule Run_loop_prefix[OF pre]) (use assms(2,3) in simp_all)
  also have "\<dots> = Ret (m, Some (ErrUnknownType key), c1)"
    by (rule Run_loop_unknown[OF assms(3,4)]) (use assms(5) in \<open>simp add: dispatch_def\<close>)
  finally have "core (Run_loop opts agg (progressInterval (NumKeys opts)) 0 0 Map.empty (connect s) [])
      = Ret (m, Some (ErrUnknownType key), c1)" .
  from core_eq_Ret[OF this] obtain out' where
    o: "Run_loop opts agg (progressInterval (NumKeys opts)) 0 0 Map.empty (connect s) []
          = Ret (m, Some (ErrUnknownType key), c1, out')" ..
  have "Run opts agg (Inr s) = Ret (Some m, Some (ErrUnknownType key), Some c1, out')"
    by (simp add: Run_def Let_def o)
  then show ?thesis ..
qed

theorem Run_unknown_type_aborts_witness:
  "\<exists>out'. Run \<lparr>Host = ''h'', Port = 6379, NumKeys = 3\<rparr> (AnyKey ''all'')
      (Inr [Inr (RBulk ''a''), Inr (RStatus ''string''), Inr (RBulk ''v''),
            Inr (RBulk ''b''), Inr (RStatus ''stream''), Inr (RBulk ''c'')])
    = Ret (Some [''all'' \<mapsto> observeString ''a'' ''v'' NewResults], Some (ErrUnknownType ''b''),
           Some \<lparr>script = [Inr (RBulk ''c'')], pending = 0,
                 trace = [Did (Cmd ''RANDOMKEY'' []) (RBulk ''a'') None,
                          Did (Cmd ''TYPE'' [AStr ''a'']) (RStatus ''string'') None,
                          Did (Cmd ''GET'' [AStr ''a'']) (RBulk ''v'') None,
                          Did (Cmd ''RANDOMKEY'' []) (RBulk ''b'') None,
                          Did (Cmd ''TYPE'' [AStr ''b'']) (RStatus ''stream'') None]\<rparr>, out')"
proof -
  let ?o = "\<lparr>Host = ''h'', Port = 6379, NumKeys = 3\<rparr>"
  let ?s = "[Inr (RBulk ''a''), Inr (RStatus ''string''), Inr (RBulk ''v''),
            Inr (RBulk ''b''), Inr (RStatus ''stream''), Inr (RBulk ''c'')]"
  let ?c = "\<lparr>script = [Inr (RBulk ''b''), Inr (RStatus ''stream''), Inr (RBulk ''c'')], pending = 0,
                 trace = [Did (Cmd ''RANDOMKEY'' []) (RBulk ''a'') None,
                          Did (Cmd ''TYPE'' [AStr ''a'']) (RStatus ''string'') None,
                          Did (Cmd ''GET'' [AStr ''a'']) (RBulk ''v'') None]\<rparr>"
  have 1: "Run (?o\<lparr>NumKeys := 1\<rparr>) (AnyKey ''all'') (Inr ?s)
     = Ret (Some [''all'' \<mapsto> observeString ''a'' ''v'' NewResults], None, Some ?c, [])"
    by (simp add: run_eval)
  have 2: "(0::int) \<le> 1" "1 < NumKeys ?o" by simp_all
  have 3: "randomKey ?c = (''b'', ''stream'', None, 
            \<lparr>script = [Inr (RBulk ''c'')], pending = 0,
                 trace = [Did (Cmd ''RANDOMKEY'' []) (RBulk ''a'') None,
                          Did (Cmd ''TYPE'' [AStr ''a'']) (RStatus ''string'') None,
                          Did (Cmd ''GET'' [AStr ''a'']) (RBulk ''v'') None,
                          Did (Cmd ''RANDOMKEY'' []) (RBulk ''b'') None,
                          Did (Cmd ''TYPE'' [AStr ''b'']) (RStatus ''stream'') None]\<rparr>)"
    by (simp add: run_eval)
  have 4: "''stream'' \<notin> {TypeString, TypeList, TypeSet, TypeSortedSet, TypeHash}"
    by (simp add: type_defs)
  show ?thesis using Run_unknown_type_aborts[OF 1 2 3 4] .
qed

subsection \<open>Empty collections\<close>

text \<open>
  C2 says that a list, sorted set or hash of cardinality 0 is observed without error and
  without panic. The samplers index element 0 of the member list unguarded: with the
  replies of an empty collection (length 0, no member) and an aggregator that returns a
  group, \<open>sampleList\<close>, \<open>sampleSortedSet\<close> and \<open>sampleHash\<close> panic, and so does a \<open>Run\<close>
  that meets such a key.
\<close>

theorem empty_collection_panics:
  "isPanic (sampleList ''k'' (connect [Inr (RInt 0), Inr (RArray [])]) (AnyKey ''all'') Map.empty)
   \<and> isPanic (sampleSortedSet ''k'' (connect [Inr (RInt 0), Inr (RArray [])])
               (AnyKey ''all'') Map.empty)
   \<and> isPanic (sampleHash ''k'' (connect [Inr (RInt 0), Inr (RArray [])])
               (AnyKey ''all'') Map.empty)
   \<and> isPanic (Run \<lparr>Host = ''h'', Port = 6379, NumKeys = 1\<rparr> (AnyKey ''all'')
               (Inr [Inr (RBulk ''k''), Inr (RStatus ''list''), Inr (RInt 0), Inr (RArray [])]))"
  by (simp add: run_eval isPanic_def)

subsection \<open>Degenerate sample counts and the returned map\<close>

text \<open>
  C8: with a sample count of 0 or less, \<open>Run\<close> is a no-op: it issues no command on the
  connection and returns the empty map, with no error when the connection was opened and
  with the dial error otherwise.
\<close>

theorem Run_nonpositive_NumKeys:
  "NumKeys opts \<le> 0 \<Longrightarrow>
     Run opts aggregator (Inr s) = Ret (Some Map.empty, None, Some (connect s), [])
     \<and> Run opts aggregator (Inl e) = Ret (Some Map.empty, Some e, None, [])"
  by (simp add: Run_def Run_loop.simps)

theorem Run_nonpositive_NumKeys_witness:
  "NumKeys \<lparr>Host = ''h'', Port = 6379, NumKeys = - 5\<rparr> \<le> 0
   \<and> Run \<lparr>Host = ''h'', Port = 6379, NumKeys = - 5\<rparr> (AnyKey ''all'')
         (Inr [Inr (RBulk ''k''), Inr (RStatus ''string''), Inr (RBulk ''v'')])
       = Ret (Some Map.empty, None,
              Some (connect [Inr (RBulk ''k''), Inr (RStatus ''string''), Inr (RBulk ''v'')]), [])"
  using Run_nonpositive_NumKeys
          [of "\<lparr>Host = ''h'', Port = 6379, NumKeys = - 5\<rparr>" "AnyKey ''all''"
              "[Inr (RBulk ''k''), Inr (RStatus ''string''), Inr (RBulk ''v'')]"]
  by simp

text \<open>
  C10: whenever \<open>Run\<close> returns, the map it returns is not nil; when dialling fails it is
  the empty map, next to the dial error.
\<close>

theorem Run_map_never_nil:
  "(\<forall>m err c out. Run opts aggregator dial = Ret (m, err, c, out) \<longrightarrow> m \<noteq> None)
   \<and> Run opts aggregator (Inl e) = Ret (Some Map.empty, Some e, None, [])"
  by (auto simp add: Run_def Let_def split: sum.splits exec.splits)

theorem Run_map_never_nil_witness:
  "Run \<lparr>Host = ''h'', Port = 6379, NumKeys = 1\<rparr> NoGroups
       (Inr [Inr (RBulk ''k''), Inr (RStatus ''string''), Inr (RNil)])
     = Ret (Some Map.empty, Some ErrNil,
            Some \<lparr>script = [], pending = 0,
                  trace = [Did (Cmd ''RANDOMKEY'' []) (RBulk ''k'') None,
                           Did (Cmd ''TYPE'' [AStr ''k'']) (RStatus ''string'') None,
                           Did (Cmd ''GET'' [AStr ''k'']) RNil None]\<rparr>, [])
   \<and> Some Map.empty \<noteq> (None :: stats option)"
  using Run_map_never_nil
          [of "\<lparr>Host = ''h'', Port = 6379, NumKeys = 1\<rparr>" NoGroups
              "Inr [Inr (RBulk ''k''), Inr (RStatus ''string''), Inr (RNil)]"]
  by (simp add: run_eval)

subsection \<open>Counting observations\<close>

lemma keyCount_observe [simp]:
  "keyCount (observeString key val r) = keyCount r + 1"
  "keyCount (observeList key l m r) = keyCount r + 1"
  "keyCount (observeSet key l m r) = keyCount r + 1"
  "keyCount (observeSortedSet key l m r) = keyCount r + 1"
  "keyCount (observeHash key l f v r) = keyCount r + 1"
  by (simp_all add: keyCount_def observe_defs)

lemma keyCount_New [simp]: "keyCount NewResults = 0"
  by (simp add: keyCount_def NewResults_def)

lemma counted_Nil: "counted m [] m"
  by (simp add: counted_def)

lemma counted_Cons:
  assumes "ensureEntry m g NewResults = (s, m1)" and "keyCount r = keyCount s + 1"
    and "counted (m1(g \<mapsto> r)) gs m'"
  shows "counted m (g # gs) m'"
  using assms
  by (auto simp: counted_def ensureEntry_def bucket_def split: option.splits if_splits)

lemma counted_append: "counted m gs m' \<Longrightarrow> counted m' hs m'' \<Longrightarrow> counted m (gs @ hs) m''"
  by (auto simp: counted_def)

lemma stringGroups_counted: "counted stats gs (stringGroups key val gs stats)"
proof (induction gs arbitrary: stats)
  case Nil
  show ?case by (simp add: counted_Nil)
next
  case (Cons g gs)
  obtain s m where e: "ensureEntry stats g NewResults = (s, m)"
    by (cases "ensureEntry stats g NewResults")
  show ?case
    by (simp add: e) (rule counted_Cons[OF e _ Cons.IH], simp)
qed

lemma setGroups_counted: "counted stats gs (setGroups key l m gs stats)"
proof (induction gs arbitrary: stats)
  case Nil
  show ?case by (simp add: counted_Nil)
next
  case (Cons g gs)
  obtain s st where e: "ensureEntry stats g NewResults = (s, st)"
    by (cases "ensureEntry stats g NewResults")
  show ?case
    by (simp add: e) (rule counted_Cons[OF e _ Cons.IH], simp)
qed

lemma listGroups_counted:
  "listGroups key l ms gs stats cn = Ret (err, stats', cn') \<Longrightarrow>
   err = None \<and> cn' = cn \<and> counted stats gs stats'"
proof (induction gs arbitrary: stats)
  case Nil
  then show ?case by (simp add: counted_Nil)
next
  case (Cons g gs)
  obtain s m where e: "ensureEntry stats g NewResults = (s, m)"
    by (cases "ensureEntry stats g NewResults")
  from Cons.prems e obtain m0 rest where ms: "ms = m0 # rest"
    and rec: "listGroups key l ms gs (m(g \<mapsto> observeList key l m0 s)) cn = Ret (err, stats', cn')"
    by (cases ms) auto
  from Cons.IH[OF rec] have "err = None" "cn' = cn"
    and c: "counted (m(g \<mapsto> observeList key l m0 s)) gs stats'" by blast+
  moreover have "counted stats (g # gs) stats'"
    by (rule counted_Cons[OF e _ c]) simp
  ultimately show ?case by simp
qed

lemma sortedSetGroups_counted:
  "sortedSetGroups key l ms gs stats cn = Ret (err, stats', cn') \<Longrightarrow>
   err = None \<and> cn' = cn \<and> counted stats gs stats'"
proof (induction gs arbitrary: stats)
  case Nil
  then show ?case by (simp add: counted_Nil)
next
  case (Cons g gs)
  obtain s m where e: "ensureEntry stats g NewResults = (s, m)"
    by (cases "ensureEntry stats g NewResults")
  from Cons.prems e obtain m0 rest where ms: "ms = m0 # rest"
    and rec: "sortedSetGroups key l ms gs (m(g \<mapsto> observeSortedSet key l m0 s)) cn
                = Ret (err, stats', cn')"
    by (cases ms) auto
  from Cons.IH[OF rec] have "err = None" "cn' = cn"
    and c: "counted (m(g \<mapsto> observeSortedSet key l m0 s)) gs stats'" by blast+
  moreover have "counted stats (g # gs) stats'"
    by (rule counted_Cons[OF e _ c]) simp
  ultimately show ?case by simp
qed

lemma hashGroups_counted:
  "hashGroups key replies gs stats cn = Ret (None, stats', cn') \<Longrightarrow>
   counted stats gs stats' \<and> sampled (trace cn') = sampled (trace cn)"
proof (induction gs arbitrary: stats cn)
  case Nil
  then show ?case by (simp add: counted_Nil)
next
  case (Cons g gs)
  obtain l err where i: "redis_Int (replies ! 0, None) = (l, err)" by (cases "redis_Int (replies ! 0, None)")
  obtain fs err1 where f: "redis_Strings (replies ! 1, err) = (fs, err1)"
    by (cases "redis_Strings (replies ! 1, err)")
  from Cons.prems i f obtain f0 rest where fs: "fs = f0 # rest" and e1: "err1 = None"
    by (cases fs; cases err1) auto
  obtain r cn1 where d: "Do (Cmd ''HGET'' [AStr key, AStr f0]) cn = (r, cn1)"
    by (cases "Do (Cmd ''HGET'' [AStr key, AStr f0]) cn")
  obtain val err2 where v: "redis_String r = (val, err2)" by (cases "redis_String r")
  obtain s m where e: "ensureEntry stats g NewResults = (s, m)"
    by (cases "ensureEntry stats g NewResults")
  from Cons.prems i f fs e1 d v e have e2: "err2 = None"
    and rec: "hashGroups key replies gs (m(g \<mapsto> observeHash key l f0 val s)) cn1 = Ret (None, stats', cn')"
    by (auto split: if_splits)
  from Cons.IH[OF rec] have c: "counted (m(g \<mapsto> observeHash key l f0 val s)) gs stats'"
    and t: "sampled (trace cn') = sampled (trace cn1)" by blast+
  have "counted stats (g # gs) stats'"
    by (rule counted_Cons[OF e _ c]) simp
  moreover have "sampled (trace cn1) = sampled (trace cn)"
    using Do_trace[OF d] by (simp add: sampled_append)
  ultimately show ?case using t by simp
qed

lemma sampleString_counted:
  assumes "sampleString key cn agg stats = Ret (None, stats', cn')"
  shows "counted stats (agg key TypeString) stats' \<and> sampled (trace cn') = sampled (trace cn)"
proof -
  obtain r cn1 where d: "Do (Cmd ''GET'' [AStr key]) cn = (r, cn1)"
    by (cases "Do (Cmd ''GET'' [AStr key]) cn")
  obtain val err where v: "redis_String r = (val, err)" by (cases "redis_String r")
  from assms d v have "stats' = stringGroups key val (agg key TypeString) stats" "cn' = cn1"
    by (auto simp: sampleString_def split: if_splits)
  then show ?thesis
    using Do_trace[OF d] by (simp add: stringGroups_counted sampled_append)
qed

lemma sampleList_counted:
  assumes "sampleList key cn agg stats = Ret (None, stats', cn')"
  shows "counted stats (agg key TypeList) stats' \<and> sampled (trace cn') = sampled (trace cn)"
proof -
  obtain replies err cn1 where
    f: "flush (Send (Cmd ''LRANGE'' [AStr key, AInt 0, AInt 0]) (Send (Cmd ''LLEN'' [AStr key]) cn))
          = ((replies, err), cn1)"
    by (metis surj_pair)
  show ?thesis
    using assms flush_two[OF f]
    by (auto simp: sampleList_def f split: if_splits prod.splits dest: listGroups_counted)
qed

lemma sampleSortedSet_counted:
  assumes "sampleSortedSet key cn agg stats = Ret (None, stats', cn')"
  shows "counted stats (agg key TypeSortedSet) stats' \<and> sampled (trace cn') = sampled (trace cn)"
proof -
  obtain replies err cn1 where
    f: "flush (Send (Cmd ''ZRANGE'' [AStr key, AInt 0, AInt 0]) (Send (Cmd ''ZCARD'' [AStr key]) cn))
          = ((replies, err), cn1)"
    by (metis surj_pair)
  show ?thesis
    using assms flush_two[OF f]
    by (auto simp: sampleSortedSet_def f split: if_splits prod.splits dest: sortedSetGroups_counted)
qed

lemma sampleSet_counted:
  assumes "sampleSet key cn agg stats = Ret (None, stats', cn')"
  shows "counted stats (agg key TypeSet) stats' \<and> sampled (trace cn') = sampled (trace cn)"
proof -
  obtain replies err cn1 where
    f: "flush (Send (Cmd ''SRANDMEMBER'' [AStr key]) (Send (Cmd ''SCARD'' [AStr key]) cn))
          = ((replies, err), cn1)"
    by (metis surj_pair)
  show ?thesis
    using assms flush_two[OF f]
    by (auto simp: sampleSet_def f setGroups_counted split: if_splits prod.splits)
qed

lemma sampleHash_counted:
  assumes "sampleHash key cn agg stats = Ret (None, stats', cn')"
  shows "counted stats (agg key TypeHash) stats' \<and> sampled (trace cn') = sampled (trace cn)"
proof -
  obtain replies err cn1 where
    f: "flush (Send (Cmd ''HKEYS'' [AStr key]) (Send (Cmd ''HLEN'' [AStr key]) cn))
          = ((replies, err), cn1)"
    by (metis surj_pair)
  show ?thesis
    using assms flush_two[OF f]
    by (auto simp: sampleHash_def f split: if_splits prod.splits dest: hashGroups_counted)
qed

lemma sampler_counted:
  assumes "dispatch vt = Some sampler" and "sampler key cn agg stats = Ret (None, stats', cn')"
  shows "counted stats (agg key vt) stats' \<and> sampled (trace cn') = sampled (trace cn)"
  using assms
  by (auto simp: dispatch_def split: if_splits
           dest: sampleString_counted sampleList_counted sampleSet_counted
                 sampleSortedSet_counted sampleHash_counted)

lemma randomKey_sampled:
  assumes "randomKey cn = (key, vt, None, cn1)"
  shows "sampled (trace cn1) = sampled (trace cn) @ [(key, vt)]"
proof -
  obtain r c1 where d1: "Do (Cmd ''RANDOMKEY'' []) cn = (r, c1)"
    by (cases "Do (Cmd ''RANDOMKEY'' []) cn")
  obtain k e where s1: "redis_String r = (k, e)" by (cases "redis_String r")
  obtain r2 c2 where d2: "Do (Cmd ''TYPE'' [AStr k]) c1 = (r2, c2)"
    by (cases "Do (Cmd ''TYPE'' [AStr k]) c1")
  obtain t e2 where s2: "redis_String r2 = (t, e2)" by (cases "redis_String r2")
  from assms d1 s1 d2 s2 have eq: "e = None" "e2 = None" "k = key" "t = vt" "c2 = cn1"
    by (auto simp: randomKey_def split: if_splits)
  have n: "snd r2 = None" using s2 eq(2) by (cases r2; cases "snd r2") auto
  then have r2: "r2 = (fst r2, None)" by (cases r2) simp
  have "trace cn1 = trace cn @ [Did (Cmd ''RANDOMKEY'' []) (fst r) (snd r),
                               Did (Cmd ''TYPE'' [AStr key]) (fst r2) None]"
    using Do_trace[OF d1] Do_trace[OF d2] eq n by simp
  moreover have "redis_String (fst r2, None) = (vt, None)" using s2 eq r2 by simp
  ultimately show ?thesis by (simp add: sampled_append)
qed

lemma Run_loop_counted:
  "Run_loop opts agg iv i li stats cn out = Ret (m, None, c, out1) \<Longrightarrow>
   \<exists>ks. sampled (trace c) = sampled (trace cn) @ ks \<and> length ks = nat (NumKeys opts - i) \<and>
        counted stats (concat (map (\<lambda>(k, vt). agg k vt) ks)) m"
proof (induction i li stats cn out rule: Run_loop_induct[where opts = opts and agg = agg and iv = iv])
  case (step i li stats cn out)
  show ?case
  proof (cases rule: Run_loop_cases[where i = i and opts = opts and agg = agg and iv = iv
          and li = li and stats = stats and cn = cn and out = out])
    case stop
    with step.prems have "m = stats" "c = cn" by simp_all
    then show ?thesis using stop(1) by (simp add: counted_Nil)
  next
    case (continue key vt cn1 sampler stats' cn2)
    from step.IH[OF continue(1,2,3,4)] step.prems continue(5)
    obtain ks where ks: "sampled (trace c) = sampled (trace cn2) @ ks"
      "length ks = nat (NumKeys opts - (i + 1))"
      "counted stats' (concat (map (\<lambda>(k, vt). agg k vt) ks)) m"
      by auto
    from sampler_counted[OF continue(3,4)]
    have c1: "counted stats (agg key vt) stats'" and t: "sampled (trace cn2) = sampled (trace cn1)"
      by blast+
    have "sampled (trace c) = sampled (trace cn) @ ((key, vt) # ks)"
      using ks(1) t randomKey_sampled[OF continue(2)] by simp
    moreover have "length ((key, vt) # ks) = nat (NumKeys opts - i)"
      using ks(2) continue(1) by simp
    moreover have "counted stats (concat (map (\<lambda>(k, vt). agg k vt) ((key, vt) # ks))) m"
      using counted_append[OF c1 ks(3)] by simp
    ultimately show ?thesis by blast
  qed (use step.prems in \<open>simp_all only: exec.inject prod.inject option.distinct exec.distinct simp_thms\<close>)
qed

lemma concat_AnyKey:
  "concat (map (\<lambda>(k, vt). AnyKey b k vt) ks) = replicate (length ks) b"
  by (induction ks) (auto simp: AnyKey_def)

lemma count_list_replicate: "count_list (replicate n b) b = n"
  by (induction n) simp_all

lemma counted_total:
  assumes "counted Map.empty gs m"
  shows "totalCount m = length gs"
proof -
  have d: "dom m = set gs" and k: "\<And>h. keyCount (bucket m h) = count_list gs h"
    using assms by (simp_all add: counted_def bucket_def)
  show ?thesis
    unfolding totalCount_def d k by (rule sum_count_set) simp_all
qed

text \<open>
  C6 says that the per-type counters of all buckets sum to the number of keys times the
  average number of buckets of an observation. A run over one string key whose group list
  is \<open>[a, a]\<close> touches one bucket, and its counters sum to 2.
\<close>

theorem Run_duplicate_groups_counterexample:
  "Run \<lparr>Host = ''h'', Port = 6379, NumKeys = 1\<rparr> (\<lambda>key valueType. [''a'', ''a''])
       (Inr [Inr (RBulk ''k''), Inr (RStatus ''string''), Inr (RBulk ''v'')])
     = Ret (Some [''a'' \<mapsto> observeString ''k'' ''v'' (observeString ''k'' ''v'' NewResults)], None,
            Some \<lparr>script = [], pending = 0,
                  trace = [Did (Cmd ''RANDOMKEY'' []) (RBulk ''k'') None,
                           Did (Cmd ''TYPE'' [AStr ''k'']) (RStatus ''string'') None,
                           Did (Cmd ''GET'' [AStr ''k'']) (RBulk ''v'') None]\<rparr>, [])
   \<and> totalCount [''a'' \<mapsto> observeString ''k'' ''v'' (observeString ''k'' ''v'' NewResults)] = 2
   \<and> card (dom [''a'' \<mapsto> observeString ''k'' ''v'' (observeString ''k'' ''v'' NewResults)]) = 1
   \<and> length (remdups [''a'', ''a'']) = 1"
  by (simp add: run_eval totalCount_def bucket_def keyCount_def observeString_def NewResults_def)

text \<open>
  C6, amended: a run that completes without error has sampled \<open>NumKeys\<close> keys, and the
  per-type counters of all buckets sum to the number of group names that the aggregator
  returned for the sampled keys, each name counted as often as it occurs in its list (the
  number of keys times the average length of the list, not the number of distinct
  buckets); with \<open>AnyKey\<close> the one bucket has counted every key and there is no other
  bucket.
\<close>

theorem Run_type_count:
  assumes "Run opts agg (Inr s) = Ret (Some m, None, Some c, out)"
  shows "length (sampled (trace c)) = nat (NumKeys opts)
       \<and> totalCount m = (\<Sum>(k, vt) \<leftarrow> sampled (trace c). length (agg k vt))
       \<and> (\<forall>b. agg = AnyKey b \<longrightarrow> keyCount (bucket m b) = nat (NumKeys opts) \<and> dom m \<subseteq> {b})"
proof -
  from assms have r: "Run_loop opts agg (progressInterval (NumKeys opts)) 0 0 Map.empty (connect s) []
      = Ret (m, None, c, out)"
    by (auto simp: Run_def Let_def split: exec.splits)
  from Run_loop_counted[OF r] have len: "length (sampled (trace c)) = nat (NumKeys opts)"
    and c: "counted Map.empty (concat (map (\<lambda>(k, vt). agg k vt) (sampled (trace c)))) m"
    by (auto simp: connect_def)
  have "totalCount m = length (concat (map (\<lambda>(k, vt). agg k vt) (sampled (trace c))))"
    by (rule counted_total[OF c])
  also have "\<dots> = (\<Sum>(k, vt) \<leftarrow> sampled (trace c). length (agg k vt))"
    by (simp add: length_concat comp_def case_prod_unfold)
  finally have total: "totalCount m = (\<Sum>(k, vt) \<leftarrow> sampled (trace c). length (agg k vt))" .
  have any: "keyCount (bucket m b) = nat (NumKeys opts) \<and> dom m \<subseteq> {b}" if "agg = AnyKey b" for b
  proof -
    have "concat (map (\<lambda>(k, vt). agg k vt) (sampled (trace c))) = replicate (length (sampled (trace c))) b"
      unfolding that by (rule concat_AnyKey)
    with c len have "counted Map.empty (replicate (nat (NumKeys opts)) b) m" by simp
    then show ?thesis
      by (auto simp: counted_def bucket_def count_list_replicate split: if_splits)
  qed
  show ?thesis using len total any by blast
qed

theorem Run_type_count_witness:
  "\<exists>m c out.
     Run \<lparr>Host = ''h'', Port = 6379, NumKeys = 2\<rparr> (AnyKey ''all'')
       (Inr [Inr (RBulk ''a''), Inr (RStatus ''string''), Inr (RBulk ''v''),
             Inr (RBulk ''b''), Inr (RStatus ''list''), Inr (RInt 3), Inr (RArray [RBulk ''x''])])
       = Ret (Some m, None, Some c, out)
     \<and> sampled (trace c) = [(''a'', ''string''), (''b'', ''list'')]
     \<and> totalCount m = 2 \<and> keyCount (bucket m ''all'') = 2 \<and> dom m \<subseteq> {''all''}"
proof -
  let ?o = "\<lparr>Host = ''h'', Port = 6379, NumKeys = 2\<rparr>"
  let ?s = "[Inr (RBulk ''a''), Inr (RStatus ''string''), Inr (RBulk ''v''),
             Inr (RBulk ''b''), Inr (RStatus ''list''), Inr (RInt 3), Inr (RArray [RBulk ''x''])]"
  have "\<exists>m c out. Run ?o (AnyKey ''all'') (Inr ?s) = Ret (Some m, None, Some c, out)
      \<and> sampled (trace c) = [(''a'', ''string''), (''b'', ''list'')]"
    by (simp add: run_eval)
  then obtain m c out where r: "Run ?o (AnyKey ''all'') (Inr ?s) = Ret (Some m, None, Some c, out)"
    and t: "sampled (trace c) = [(''a'', ''string''), (''b'', ''list'')]" by blast
  from Run_type_count[OF r] t
  have "totalCount m = 2 \<and> keyCount (bucket m ''all'') = 2 \<and> dom m \<subseteq> {''all''}"
    by (simp add: AnyKey_def)
  with r t show ?thesis by blast
qed

text \<open>
  C4 says that an observation is recorded once per distinct name and never twice in one
  bucket. With the group list \<open>[a, a]\<close>, which has one distinct name, the string sampler
  records the observation twice in the bucket \<open>a\<close>.
\<close>

theorem duplicate_groups_counterexample:
  "sampleString ''k'' (connect [Inr (RBulk ''v'')]) (\<lambda>key valueType. [''a'', ''a'']) Map.empty
     = Ret (None, [''a'' \<mapsto> observeString ''k'' ''v'' (observeString ''k'' ''v'' NewResults)],
            \<lparr>script = [], pending = 0, trace = [Did (Cmd ''GET'' [AStr ''k'']) (RBulk ''v'') None]\<rparr>)
   \<and> StringCount (observeString ''k'' ''v'' (observeString ''k'' ''v'' NewResults)) = 2
   \<and> remdups [''a'', ''a''] = [''a'']"
  by (simp add: run_eval observeString_def NewResults_def)

text \<open>
  C4, amended: a sampler records the observation of a key once per occurrence of a
  group name in the list that the aggregator returns, so that a name occurring \<open>k\<close> times
  has the key counted \<open>k\<close> times in its bucket.
\<close>

theorem sampler_counts_occurrences:
  assumes "dispatch vt = Some sampler" and "sampler key cn agg stats = Ret (None, stats', cn')"
  shows "keyCount (bucket stats' g) = keyCount (bucket stats g) + count_list (agg key vt) g"
  using sampler_counted[OF assms] by (simp add: counted_def)

theorem sampler_counts_occurrences_witness:
  "dispatch ''string'' = Some sampleString
   \<and> sampleString ''k'' (connect [Inr (RBulk ''v'')]) (\<lambda>key valueType. [''a'', ''a'']) Map.empty
     = Ret (None, [''a'' \<mapsto> observeString ''k'' ''v'' (observeString ''k'' ''v'' NewResults)],
            \<lparr>script = [], pending = 0, trace = [Did (Cmd ''GET'' [AStr ''k'']) (RBulk ''v'') None]\<rparr>)
   \<and> keyCount (bucket [''a'' \<mapsto> observeString ''k'' ''v'' (observeString ''k'' ''v'' NewResults)] ''a'')
     = keyCount (bucket Map.empty ''a'') + count_list [''a'', ''a''] ''a''
   \<and> count_list [''a'', ''a''] ''a'' = 2"
proof -
  have 1: "dispatch ''string'' = Some sampleString"
    by (simp add: dispatch_def type_defs)
  have 2: "sampleString ''k'' (connect [Inr (RBulk ''v'')]) (\<lambda>key valueType. [''a'', ''a'']) Map.empty
     = Ret (None, [''a'' \<mapsto> observeString ''k'' ''v'' (observeString ''k'' ''v'' NewResults)],
            \<lparr>script = [], pending = 0, trace = [Did (Cmd ''GET'' [AStr ''k'']) (RBulk ''v'') None]\<rparr>)"
    by (simp add: run_eval)
  have 3: "keyCount (bucket [''a'' \<mapsto> observeString ''k'' ''v'' (observeString ''k'' ''v'' NewResults)] ''a'')
     = keyCount (bucket Map.empty ''a'') + count_list [''a'', ''a''] ''a''"
    using sampler_counts_occurrences[OF 1 2, of "''a''"] .
  have 4: "count_list [''a'', ''a''] ''a'' = 2" by simp
  show ?thesis by (intro conjI 1 2 3 4)
qed

subsection \<open>The field that the hash sampler selects\<close>

lemma recordHash_pair:
  "recordHash key l f (g, v) m = m(g \<mapsto> observeHash key l f v (bucket m g))"
  by (simp add: recordHash_def)

lemma ensureEntry_update:
  "ensureEntry m g NewResults = (s, m1) \<Longrightarrow> s = bucket m g \<and> m1(g \<mapsto> r) = m(g \<mapsto> r)"
  by (auto simp: ensureEntry_def bucket_def split: option.splits)

lemma hashGroups_first_field:
  assumes "redis_Int (replies ! 0, None) = (l, None)"
    and "redis_Strings (replies ! 1, None) = (f0 # fs, None)"
  shows "pending cn = 0 \<Longrightarrow> script cn = map (\<lambda>v. Inr (RBulk v)) vals @ rest \<Longrightarrow>
    length vals = length gs \<Longrightarrow>
    hashGroups key replies gs stats cn
      = Ret (None,
             fold (recordHash key l f0) (zip gs vals) stats,
             cn\<lparr>script := rest,
                trace := trace cn @ map (\<lambda>v. Did (Cmd ''HGET'' [AStr key, AStr f0]) (RBulk v) None) vals\<rparr>)"
proof (induction gs arbitrary: vals stats cn)
  case Nil
  then show ?case by simp
next
  case (Cons g gs)
  from Cons.prems(3) obtain v vs where vals: "vals = v # vs" by (cases vals) auto
  let ?cn1 = "cn\<lparr>script := map (\<lambda>v. Inr (RBulk v)) vs @ rest, pending := 0,
                 trace := trace cn @ [Did (Cmd ''HGET'' [AStr key, AStr f0]) (RBulk v) None]\<rparr>"
  have d: "Do (Cmd ''HGET'' [AStr key, AStr f0]) cn = ((RBulk v, None), ?cn1)"
    using Cons.prems(1,2) vals by (simp add: Do_one)
  obtain s m where e: "ensureEntry stats g NewResults = (s, m)"
    by (cases "ensureEntry stats g NewResults")
  note u = ensureEntry_update[OF e]
  have "hashGroups key replies (g # gs) stats cn
      = hashGroups key replies gs (stats(g \<mapsto> observeHash key l f0 v (bucket stats g))) ?cn1"
    using assms d e u by simp
  also have "\<dots> = Ret (None,
             fold (recordHash key l f0) (zip gs vs)
               (stats(g \<mapsto> observeHash key l f0 v (bucket stats g))),
             ?cn1\<lparr>script := rest,
                trace := trace ?cn1 @ map (\<lambda>v. Did (Cmd ''HGET'' [AStr key, AStr f0]) (RBulk v) None) vs\<rparr>)"
    by (rule Cons.IH) (use Cons.prems vals in simp_all)
  finally show ?case using vals Cons.prems(1) by (simp add: recordHash_pair)
qed

text \<open>
  C9: when HKEYS returns at least one field, the hash sampler asks HGET for the first
  field of the list, once per group, and records that field and the value returned for
  it; the other fields play no part.
\<close>

theorem sampleHash_first_field:
  assumes "flush (Send (Cmd ''HKEYS'' [AStr key]) (Send (Cmd ''HLEN'' [AStr key]) cn))
             = ((replies, None), cn1)"
    and "redis_Int (replies ! 0, None) = (l, None)"
    and "redis_Strings (replies ! 1, None) = (f0 # fs, None)"
    and "script cn1 = map (\<lambda>v. Inr (RBulk v)) vals @ rest"
    and "length vals = length (agg key TypeHash)"
  shows "sampleHash key cn agg stats
      = Ret (None,
             fold (recordHash key l f0) (zip (agg key TypeHash) vals) stats,
             cn1\<lparr>script := rest,
                 trace := trace cn1
                   @ map (\<lambda>v. Did (Cmd ''HGET'' [AStr key, AStr f0]) (RBulk v) None) vals\<rparr>)"
proof -
  have "2 \<le> length replies"
    by (rule flush_two(2)[OF assms(1) refl])
  then have "sampleHash key cn agg stats = hashGroups key replies (agg key TypeHash) stats cn1"
    using assms(1) by (simp add: sampleHash_def)
  also have "\<dots> = Ret (None,
             fold (recordHash key l f0) (zip (agg key TypeHash) vals) stats,
             cn1\<lparr>script := rest,
                 trace := trace cn1
                   @ map (\<lambda>v. Did (Cmd ''HGET'' [AStr key, AStr f0]) (RBulk v) None) vals\<rparr>)"
    by (rule hashGroups_first_field[OF assms(2,3) flush_pending[OF assms(1)] assms(4,5)])
  finally show ?thesis .
qed

theorem sampleHash_first_field_witness:
  "sampleHash ''h'' (connect [Inr (RInt 2), Inr (RArray [RBulk ''f1'', RBulk ''f2'']), Inr (RBulk ''v1'')])
     (AnyKey ''all'') Map.empty
   = Ret (None, [''all'' \<mapsto> observeHash ''h'' 2 ''f1'' ''v1'' NewResults],
          \<lparr>script = [], pending = 0,
            trace = [Sent (Cmd ''HLEN'' [AStr ''h'']), Sent (Cmd ''HKEYS'' [AStr ''h'']),
                     Did (Cmd [] []) (RArray [RInt 2, RArray [RBulk ''f1'', RBulk ''f2'']]) None,
                     Did (Cmd ''HGET'' [AStr ''h'', AStr ''f1'']) (RBulk ''v1'') None]\<rparr>)"
proof -
  let ?cn = "connect [Inr (RInt 2), Inr (RArray [RBulk ''f1'', RBulk ''f2'']), Inr (RBulk ''v1'')]"
  let ?cn1 = "\<lparr>script = [Inr (RBulk ''v1'')], pending = 0,
            trace = [Sent (Cmd ''HLEN'' [AStr ''h'']), Sent (Cmd ''HKEYS'' [AStr ''h'']),
                     Did (Cmd [] []) (RArray [RInt 2, RArray [RBulk ''f1'', RBulk ''f2'']]) None]\<rparr>"
  let ?replies = "[RInt 2, RArray [RBulk ''f1'', RBulk ''f2'']]"
  have 1: "flush (Send (Cmd ''HKEYS'' [AStr ''h'']) (Send (Cmd ''HLEN'' [AStr ''h'']) ?cn))
      = ((?replies, None), ?cn1)"
    by (simp add: run_eval)
  have 2: "redis_Int (?replies ! 0, None) = (2, None)" by simp
  have 3: "redis_Strings (?replies ! 1, None) = (''f1'' # [''f2''], None)" by simp
  have 4: "script ?cn1 = map (\<lambda>v. Inr (RBulk v)) [''v1''] @ []" by simp
  have 5: "length [''v1''] = length (AnyKey ''all'' ''h'' TypeHash)" by (simp add: AnyKey_def)
  show ?thesis
    using sampleHash_first_field[where agg = "AnyKey ''all''" and stats = Map.empty, OF 1 2 3 4 5]
    by (simp add: AnyKey_def recordHash_pair bucket_def)
qed

subsection \<open>Merging accumulators\<close>

lemma Merge_commute: "Name a = Name b \<Longrightarrow> Merge a b = Merge b a"
  by (cases a, cases b) (simp add: Merge_def add.commute)

lemma Merge_assoc: "Merge (Merge a b) c = Merge a (Merge b c)"
  by (simp add: Merge_def add.assoc)

lemma Merge_New: "Merge r NewResults = r"
  by (simp add: Merge_def NewResults_def)

lemma Merge_observe: "Merge r (observe x b) = observe x (Merge r b)"
  by (cases x) (simp_all add: Merge_def observe_defs add.assoc)

lemma observe_commute: "observe x (observe y r) = observe y (observe x r)"
  by (cases x; cases y) (simp_all add: observe_defs add_ac)

lemma fold_observe_Merge: "fold observe ys r = Merge r (fold observe ys NewResults)"
proof (induction ys arbitrary: r)
  case Nil
  show ?case by (simp add: Merge_New)
next
  case (Cons y ys)
  have "fold observe (y # ys) r = Merge (observe y r) (fold observe ys NewResults)"
    using Cons.IH[of "observe y r"] by simp
  also have "observe y r = Merge r (observe y NewResults)"
    by (simp add: Merge_observe Merge_New)
  also have "Merge (Merge r (observe y NewResults)) (fold observe ys NewResults)
      = Merge r (Merge (observe y NewResults) (fold observe ys NewResults))"
    by (rule Merge_assoc)
  also have "Merge (observe y NewResults) (fold observe ys NewResults) = fold observe (y # ys) NewResults"
    using Cons.IH[of "observe y NewResults"] by simp
  finally show ?case .
qed

lemma accumulate_append: "accumulate (xs @ ys) = Merge (accumulate xs) (accumulate ys)"
  unfolding accumulate_def using fold_observe_Merge[of ys "fold observe xs NewResults"] by simp

lemma accumulate_perm: "mset xs = mset ys \<Longrightarrow> accumulate xs = accumulate ys"
  unfolding accumulate_def
  by (rule fun_cong[OF fold_multiset_equiv]) (auto simp: fun_eq_iff observe_commute)

lemma foldl_Merge_accumulate:
  "foldl Merge (accumulate p) (map accumulate ps) = accumulate (concat (p # ps))"
  by (induction ps arbitrary: p) (simp_all add: accumulate_append[symmetric])

lemma mergeAll_accumulate: "mergeAll (map accumulate parts) = accumulate (concat parts)"
  by (cases parts) (simp_all add: foldl_Merge_accumulate, simp add: accumulate_def)

text \<open>
  C5: \<open>Merge\<close> is commutative in the counters and size statistics (the receiver keeps
  its name) and associative, and merging the accumulators of the parts of an observation
  sequence, however the sequence is split and ordered, gives the accumulator of one run
  over all observations.
\<close>

theorem Merge_commutative_associative:
  "Merge a b = (Merge b a)\<lparr>Name := Name a\<rparr>
   \<and> Merge (Merge a b) c = Merge a (Merge b c)
   \<and> (mset (concat parts) = mset obs \<longrightarrow> mergeAll (map accumulate parts) = accumulate obs)"
proof -
  have "Merge a b = (Merge b a)\<lparr>Name := Name a\<rparr>"
    by (cases a, cases b) (simp add: Merge_def add.commute)
  moreover have "mergeAll (map accumulate parts) = accumulate obs" if "mset (concat parts) = mset obs"
    using accumulate_perm[OF that] by (simp add: mergeAll_accumulate)
  moreover note Merge_assoc[of a b c]
  ultimately show ?thesis by blast
qed

theorem Merge_commutative_associative_witness:
  "mset (concat [[ObsString ''a'' ''v''], [ObsList ''b'' 2 ''x'', ObsString ''c'' ''vv'']])
     = mset [ObsList ''b'' 2 ''x'', ObsString ''c'' ''vv'', ObsString ''a'' ''v'']
   \<and> mergeAll (map accumulate [[ObsString ''a'' ''v''], [ObsList ''b'' 2 ''x'', ObsString ''c'' ''vv'']])
     = accumulate [ObsList ''b'' 2 ''x'', ObsString ''c'' ''vv'', ObsString ''a'' ''v'']"
  using Merge_commutative_associative
          [of NewResults NewResults NewResults
              "[[ObsString ''a'' ''v''], [ObsList ''b'' 2 ''x'', ObsString ''c'' ''vv'']]"
              "[ObsList ''b'' 2 ''x'', ObsString ''c'' ''vv'', ObsString ''a'' ''v'']"]
  by simp

subsection \<open>Failing store commands\<close>

text \<open>
  Every error that \<open>conn.Do\<close> returns ends the run at once: a trace of a run either has no
  failed round trip, or the failed round trip is its last event and \<open>Run\<close> returns its
  error. A run that panics has had no failed round trip.
\<close>

lemma clean_append [simp]: "clean (xs @ ys) \<longleftrightarrow> clean xs \<and> clean ys"
  by (simp add: clean_def)

lemma clean_simps [simp]:
  "clean []" "clean (Sent c # t) = clean t" "clean (Did c r None # t) = clean t"
  "\<not> clean (Did c r (Some e) # t)"
  by (simp_all add: clean_def)

lemma endsFailed_snoc [simp]:
  "endsFailed (t @ [Did c r (Some e)]) err \<longleftrightarrow> clean t \<and> err = Some e"
  by (simp add: endsFailed_def clean_def)

lemma endsFailed_None [simp]: "\<not> endsFailed t None"
  by (auto simp: endsFailed_def split: list.splits event.splits option.splits)

lemma redis_String_err: "redis_String (r, Some e) = (v, err) \<Longrightarrow> err = Some e"
  by auto

lemma Do_outcome:
  assumes "clean (trace cn)" and "Do c cn = ((r, e), cn')"
  shows "(e = None \<and> clean (trace cn')) \<or> endsFailed (trace cn') e"
  using assms Do_trace[OF assms(2)] by (cases e) auto

lemma after_String:
  assumes "clean (trace cn)" and "Do c cn = (x, cn')" and "redis_String x = (v, err)"
  shows "clean (trace cn') \<or> endsFailed (trace cn') err"
proof (cases x)
  case (Pair r e)
  with Do_outcome[OF assms(1)] assms(2) have "(e = None \<and> clean (trace cn')) \<or> endsFailed (trace cn') e"
    by simp
  moreover have "err = e" if "e \<noteq> None" using that assms(3) Pair by (cases e) auto
  ultimately show ?thesis by (cases e) auto
qed

lemma randomKey_outcome:
  assumes "clean (trace cn)" and "randomKey cn = (key, vt, err, cn')"
  shows "clean (trace cn') \<or> endsFailed (trace cn') err"
proof -
  obtain x c1 where d1: "Do (Cmd ''RANDOMKEY'' []) cn = (x, c1)"
    by (cases "Do (Cmd ''RANDOMKEY'' []) cn")
  obtain k e where s1: "redis_String x = (k, e)" by (cases "redis_String x")
  note a1 = after_String[OF assms(1) d1 s1]
  show ?thesis
  proof (cases e)
    case (Some e')
    then show ?thesis using assms(2) d1 s1 a1 by (simp add: randomKey_def)
  next
    case None
    then have c1: "clean (trace c1)" using a1 by simp
    obtain x2 c2 where d2: "Do (Cmd ''TYPE'' [AStr k]) c1 = (x2, c2)"
      by (cases "Do (Cmd ''TYPE'' [AStr k]) c1")
    obtain t e2 where s2: "redis_String x2 = (t, e2)" by (cases "redis_String x2")
    from after_String[OF c1 d2 s2] assms(2) d1 s1 None d2 s2 show ?thesis
      by (auto simp: randomKey_def split: if_splits)
  qed
qed

lemma flush_outcome:
  assumes "clean (trace cn)" and "flush (Send c2 (Send c1 cn)) = ((replies, err), cn1)"
  shows "clean (trace cn1) \<or> endsFailed (trace cn1) err"
proof -
  let ?cn = "Send c2 (Send c1 cn)"
  obtain x where d: "Do (Cmd [] []) ?cn = (x, cn1)" and v: "redis_Values x = (replies, err)"
    using assms(2) by (auto simp: flush_def split: prod.splits)
  obtain r e where x: "x = (r, e)" by (cases x)
  have "clean (trace ?cn)" using assms(1) by (simp add: Send_def)
  from Do_outcome[OF this d[unfolded x]] have "(e = None \<and> clean (trace cn1)) \<or> endsFailed (trace cn1) e" .
  moreover have "err = e" if "e \<noteq> None" using that v x by (cases e) auto
  ultimately show ?thesis by (cases e) auto
qed

lemma settled_simps [simp]:
  "settled (Ret (err, stats, cn)) \<longleftrightarrow> clean (trace cn) \<or> endsFailed (trace cn) err"
  "settled (Panic cn) \<longleftrightarrow> clean (trace cn)"
  by (simp_all add: settled_def)

lemma sampleString_settled:
  assumes "clean (trace cn)"
  shows "settled (sampleString key cn agg stats)"
proof -
  obtain x cn1 where d: "Do (Cmd ''GET'' [AStr key]) cn = (x, cn1)"
    by (cases "Do (Cmd ''GET'' [AStr key]) cn")
  obtain val err where v: "redis_String x = (val, err)" by (cases "redis_String x")
  from after_String[OF assms d v] show ?thesis
    by (auto simp: sampleString_def d v)
qed

lemma listGroups_settled: "clean (trace cn) \<Longrightarrow> settled (listGroups key l ms gs stats cn)"
  by (induction gs arbitrary: stats) (auto split: prod.splits list.splits)

lemma sortedSetGroups_settled:
  "clean (trace cn) \<Longrightarrow> settled (sortedSetGroups key l ms gs stats cn)"
  by (induction gs arbitrary: stats) (auto split: prod.splits list.splits)

lemma hashGroups_settled: "clean (trace cn) \<Longrightarrow> settled (hashGroups key replies gs stats cn)"
proof (induction gs arbitrary: stats cn)
  case Nil
  then show ?case by simp
next
  case (Cons g gs)
  obtain l err where i: "redis_Int (replies ! 0, None) = (l, err)"
    by (cases "redis_Int (replies ! 0, None)")
  obtain fs err1 where f: "redis_Strings (replies ! 1, err) = (fs, err1)"
    by (cases "redis_Strings (replies ! 1, err)")
  show ?case
  proof (cases "err1 \<noteq> None \<or> fs = []")
    case True
    then show ?thesis using Cons.prems i f by (auto split: list.splits)
  next
    case False
    then obtain f0 rest where fs: "fs = f0 # rest" and e1: "err1 = None" by (cases fs) auto
    obtain x cn1 where d: "Do (Cmd ''HGET'' [AStr key, AStr f0]) cn = (x, cn1)"
      by (cases "Do (Cmd ''HGET'' [AStr key, AStr f0]) cn")
    obtain val err2 where v: "redis_String x = (val, err2)" by (cases "redis_String x")
    obtain s m where e: "ensureEntry stats g NewResults = (s, m)"
      by (cases "ensureEntry stats g NewResults")
    note a = after_String[OF Cons.prems d v]
    show ?thesis
    proof (cases err2)
      case None
      then have "clean (trace cn1)" using a by simp
      from Cons.IH[OF this] show ?thesis using i f fs e1 d v e None by simp
    next
      case (Some e2)
      then show ?thesis using a i f fs e1 d v by simp
    qed
  qed
qed

lemma sampleList_settled:
  assumes "clean (trace cn)"
  shows "settled (sampleList key cn agg stats)"
proof -
  obtain replies err cn1 where
    f: "flush (Send (Cmd ''LRANGE'' [AStr key, AInt 0, AInt 0]) (Send (Cmd ''LLEN'' [AStr key]) cn))
          = ((replies, err), cn1)"
    by (metis surj_pair)
  from flush_outcome[OF assms f] show ?thesis
    by (cases err) (auto simp: sampleList_def f listGroups_settled split: prod.splits)
qed

lemma sampleSortedSet_settled:
  assumes "clean (trace cn)"
  shows "settled (sampleSortedSet key cn agg stats)"
proof -
  obtain replies err cn1 where
    f: "flush (Send (Cmd ''ZRANGE'' [AStr key, AInt 0, AInt 0]) (Send (Cmd ''ZCARD'' [AStr key]) cn))
          = ((replies, err), cn1)"
    by (metis surj_pair)
  from flush_outcome[OF assms f] show ?thesis
    by (cases err) (auto simp: sampleSortedSet_def f sortedSetGroups_settled split: prod.splits)
qed

lemma sampleSet_settled:
  assumes "clean (trace cn)"
  shows "settled (sampleSet key cn agg stats)"
proof -
  obtain replies err cn1 where
    f: "flush (Send (Cmd ''SRANDMEMBER'' [AStr key]) (Send (Cmd ''SCARD'' [AStr key]) cn))
          = ((replies, err), cn1)"
    by (metis surj_pair)
  from flush_outcome[OF assms f] show ?thesis
    by (cases err) (auto simp: sampleSet_def f split: prod.splits)
qed

lemma sampleHash_settled:
  assumes "clean (trace cn)"
  shows "settled (sampleHash key cn agg stats)"
proof -
  obtain replies err cn1 where
    f: "flush (Send (Cmd ''HKEYS'' [AStr key]) (Send (Cmd ''HLEN'' [AStr key]) cn))
          = ((replies, err), cn1)"
    by (metis surj_pair)
  from flush_outcome[OF assms f] show ?thesis
    by (cases err) (auto simp: sampleHash_def f hashGroups_settled split: prod.splits)
qed

lemma sampler_settled:
  "dispatch vt = Some sampler \<Longrightarrow> clean (trace cn) \<Longrightarrow> settled (sampler key cn agg stats)"
  by (auto simp: dispatch_def sampleString_settled sampleList_settled sampleSet_settled
        sampleSortedSet_settled sampleHash_settled split: if_splits)

lemma Run_loop_settled:
  "clean (trace cn) \<Longrightarrow> settledRun (Run_loop opts agg iv i li stats cn out)"
proof (induction i li stats cn out rule: Run_loop_induct[where opts = opts and agg = agg and iv = iv])
  case (step i li stats cn out)
  show ?case
  proof (cases rule: Run_loop_cases[where i = i and opts = opts and agg = agg and iv = iv
          and li = li and stats = stats and cn = cn and out = out])
    case stop
    then show ?thesis using step.prems by (simp add: settledRun_def)
  next
    case (key_error key vt e cn1)
    then show ?thesis using randomKey_outcome[OF step.prems key_error(2)]
      by (simp add: settledRun_def)
  next
    case (unknown key vt cn1)
    then show ?thesis using randomKey_outcome[OF step.prems unknown(2)]
      by (simp add: settledRun_def)
  next
    case (panic key vt cn1 sampler c)
    have "clean (trace cn1)" using randomKey_outcome[OF step.prems panic(2)] by simp
    from sampler_settled[OF panic(3) this, of key agg stats] panic(4,5)
    show ?thesis by (simp add: settledRun_def)
  next
    case (sampler_error key vt cn1 sampler e stats' cn2)
    have "clean (trace cn1)" using randomKey_outcome[OF step.prems sampler_error(2)] by simp
    from sampler_settled[OF sampler_error(3) this, of key agg stats] sampler_error(4,5)
    show ?thesis by (simp add: settledRun_def)
  next
    case (continue key vt cn1 sampler stats' cn2)
    have "clean (trace cn1)" using randomKey_outcome[OF step.prems continue(2)] by simp
    from sampler_settled[OF continue(3) this, of key agg stats] continue(4)
    have "clean (trace cn2)" by simp
    from step.IH[OF continue(1,2,3,4) this] continue(5) show ?thesis by simp
  qed
qed

lemma Run_failed_round_trip_is_last:
  assumes "Run opts agg (Inr s) = Ret (m, err, Some cn, out)"
  shows "clean (trace cn) \<or> endsFailed (trace cn) err"
proof -
  from assms obtain m' where
    "Run_loop opts agg (progressInterval (NumKeys opts)) 0 0 Map.empty (connect s) []
       = Ret (m', err, cn, out)"
    by (auto simp: Run_def Let_def split: exec.splits)
  moreover have "settledRun (Run_loop opts agg (progressInterval (NumKeys opts)) 0 0 Map.empty
                   (connect s) [])"
    by (rule Run_loop_settled) (simp add: connect_def)
  ultimately show ?thesis by (simp add: settledRun_def)
qed

text \<open>
  C7 says that every failing store command aborts the run with a non-nil error. The hash
  sampler converts the replies to HLEN and HKEYS only inside its loop over the groups:
  when the aggregator returns no group for a hash key and both commands fail with an
  error reply, \<open>Run\<close> goes on and returns a nil error. The list sampler, which converts
  the replies before its loop, returns the error on the same replies.
\<close>

theorem hash_error_reply_not_reported:
  "Run \<lparr>Host = ''h'', Port = 6379, NumKeys = 1\<rparr> NoGroups
       (Inr [Inr (RBulk ''k''), Inr (RStatus ''hash''),
             Inr (RError ''WRONGTYPE''), Inr (RError ''WRONGTYPE'')])
     = Ret (Some Map.empty, None,
            Some \<lparr>script = [], pending = 0,
                  trace = [Did (Cmd ''RANDOMKEY'' []) (RBulk ''k'') None,
                           Did (Cmd ''TYPE'' [AStr ''k'']) (RStatus ''hash'') None,
                           Sent (Cmd ''HLEN'' [AStr ''k'']), Sent (Cmd ''HKEYS'' [AStr ''k'']),
                           Did (Cmd [] []) (RArray [RError ''WRONGTYPE'', RError ''WRONGTYPE''])
                             None]\<rparr>, [])
   \<and> Run \<lparr>Host = ''h'', Port = 6379, NumKeys = 1\<rparr> NoGroups
       (Inr [Inr (RBulk ''k''), Inr (RStatus ''list''),
             Inr (RError ''WRONGTYPE''), Inr (RError ''WRONGTYPE'')])
     = Ret (Some Map.empty, Some (ErrServer ''WRONGTYPE''),
            Some \<lparr>script = [], pending = 0,
                  trace = [Did (Cmd ''RANDOMKEY'' []) (RBulk ''k'') None,
                           Did (Cmd ''TYPE'' [AStr ''k'']) (RStatus ''list'') None,
                           Sent (Cmd ''LLEN'' [AStr ''k'']),
                           Sent (Cmd ''LRANGE'' [AStr ''k'', AInt 0, AInt 0]),
                           Did (Cmd [] []) (RArray [RError ''WRONGTYPE'', RError ''WRONGTYPE''])
                             None]\<rparr>, [])"
  by (simp add: run_eval)

end
